theory Spec2Isabelle
  imports Complex_Main "HOL-Library.AList"
begin

section \<open>Hybrid retrieval engine of \<^verbatim>\<open>rag_pipeline.py\<close>\<close>

text \<open>
  The development embeds the three classes of \<^verbatim>\<open>kler/backend/app/rag_pipeline.py\<close>:
  \<^verbatim>\<open>VectorIndex\<close> (dense nearest-neighbour search), \<^verbatim>\<open>BM25Index\<close> (lexical scoring)
  and \<^verbatim>\<open>Retriever\<close> (reciprocal rank fusion with an optional reranker).

  Conventions of the embedding:
  \<^item> the numbers of the lexical index are Python floats, and their operations are
    parameters of the definitions, so that what is proved about the scores holds for
    Python's own arithmetic. The vectors of the dense index and the fusion scores of the
    retriever are carried as \<^typ>\<open>real\<close>s: there the definitions follow the operations of the
    code in their order, but not their rounding, overflow, infinities or NaN, and the
    theorems about these two classes are about validation, control flow and the movement
    of data: none of them states the value of a float computation;
  \<^item> a raised exception is \<open>Inl\<close> of its class;
  \<^item> a dictionary object is an address into a store, so that two documents with equal
    fields are still two objects (\<^verbatim>\<open>id(doc)\<close> is the address);
  \<^item> \<^verbatim>\<open>list.sort\<close> is stable, and so is \<^const>\<open>sort_key\<close>; \<^verbatim>\<open>reverse=True\<close> keeps the
    order of equal keys, which is \<^const>\<open>sort_key\<close> on the negated key.
\<close>

subsection \<open>Python values, exceptions and the object store\<close>

datatype error = ValueError | TypeError | IndexError | KeyError | ZeroDivisionError
  | OverflowError | ExternalError string

type_synonym ref = nat

datatype pyval = PNone | PBool bool | PInt int | PFloat real | PStr string
  | PList "pyval list" | PDictRef ref

type_synonym pydict = "string \<rightharpoonup> pyval"

text \<open>Every address holds a dictionary; one never written to holds the empty dictionary.\<close>

type_synonym store = "ref \<Rightarrow> pydict"

text \<open>\<^verbatim>\<open>isinstance(x, (int, float))\<close>: \<^verbatim>\<open>bool\<close> is a subclass of \<^verbatim>\<open>int\<close>.\<close>

fun is_number :: "pyval \<Rightarrow> bool" where
  "is_number (PBool _) = True"
| "is_number (PInt _) = True"
| "is_number (PFloat _) = True"
| "is_number _ = False"

fun num_val :: "pyval \<Rightarrow> real" where
  "num_val (PBool b) = (if b then 1 else 0)"
| "num_val (PInt i) = real_of_int i"
| "num_val (PFloat x) = x"
| "num_val _ = 0"

text \<open>\<^verbatim>\<open>isinstance(v, list) and all(isinstance(x, (int, float)) for x in v)\<close>\<close>

fun is_number_list :: "pyval \<Rightarrow> bool" where
  "is_number_list (PList xs) = list_all is_number xs"
| "is_number_list _ = False"

fun list_items :: "pyval \<Rightarrow> pyval list" where
  "list_items (PList xs) = xs"
| "list_items _ = []"

subsection \<open>Numbers\<close>

text \<open>
  The lexical index computes its scores with Python floats and the ints it mixes with
  them. That arithmetic rounds, overflows to infinities, produces NaN and raises
  (\<^verbatim>\<open>ZeroDivisionError\<close>, \<^verbatim>\<open>OverflowError\<close>, \<^verbatim>\<open>ValueError\<close> of \<^verbatim>\<open>math.log\<close>). None of this is
  fixed here: the operations on numbers are parameters of the definitions, \<open>'f\<close> is the
  type of the numbers, and what is proved for all operations holds for Python's. The
  fields are the operators \<^verbatim>\<open>+\<close>, \<^verbatim>\<open>-\<close>, \<^verbatim>\<open>*\<close>, \<^verbatim>\<open>/\<close>, unary \<^verbatim>\<open>-\<close>, \<^verbatim>\<open>>\<close> and \<^verbatim>\<open>==\<close> on
  numbers, \<^verbatim>\<open>math.log\<close> and \<^verbatim>\<open>math.exp\<close>, an int taken as a number, the float literals
  \<^verbatim>\<open>0.0\<close>, \<^verbatim>\<open>0.5\<close> and \<^verbatim>\<open>1e-9\<close>, and \<^verbatim>\<open>list.sort\<close> of pairs by their score, ascending or with
  \<^verbatim>\<open>reverse=True\<close>.
\<close>

record 'f number_ops =
  py_int :: "int \<Rightarrow> 'f"
  float_zero :: 'f
  float_half :: 'f
  float_eps :: 'f
  py_add :: "'f \<Rightarrow> 'f \<Rightarrow> error + 'f"
  py_sub :: "'f \<Rightarrow> 'f \<Rightarrow> error + 'f"
  py_mul :: "'f \<Rightarrow> 'f \<Rightarrow> error + 'f"
  py_div :: "'f \<Rightarrow> 'f \<Rightarrow> error + 'f"
  py_neg :: "'f \<Rightarrow> 'f"
  py_gt :: "'f \<Rightarrow> 'f \<Rightarrow> bool"
  py_eq :: "'f \<Rightarrow> 'f \<Rightarrow> bool"
  math_log :: "'f \<Rightarrow> error + 'f"
  math_exp :: "'f \<Rightarrow> error + 'f"
  sort_by_score :: "bool \<Rightarrow> ('f \<times> ref) list \<Rightarrow> ('f \<times> ref) list"

text \<open>
  An operator applied to two subexpressions: Python evaluates the left one, then the right
  one, then applies the operator, and the first exception ends the evaluation.
\<close>

definition op2 ::
  "('f \<Rightarrow> 'f \<Rightarrow> error + 'f) \<Rightarrow> error + 'f \<Rightarrow> error + 'f \<Rightarrow> error + 'f" where
  "op2 f x y =
     (case x of
        Inl e \<Rightarrow> Inl e
      | Inr a \<Rightarrow> (case y of Inl e \<Rightarrow> Inl e | Inr b \<Rightarrow> f a b))"

definition op1 :: "('f \<Rightarrow> error + 'f) \<Rightarrow> error + 'f \<Rightarrow> error + 'f" where
  "op1 f x = (case x of Inl e \<Rightarrow> Inl e | Inr a \<Rightarrow> f a)"

text \<open>
  Exact arithmetic over the reals is one instance of the operations. It serves to evaluate
  the definitions on examples; it is not Python's arithmetic, and no theorem is proved for
  this instance alone.
\<close>

definition exact_ops :: "real number_ops" where
  "exact_ops =
     \<lparr>py_int = real_of_int, float_zero = 0, float_half = 1 / 2, float_eps = 1 / 10 ^ 9,
      py_add = (\<lambda>x y. Inr (x + y)), py_sub = (\<lambda>x y. Inr (x - y)),
      py_mul = (\<lambda>x y. Inr (x * y)),
      py_div = (\<lambda>x y. if y = 0 then Inl ZeroDivisionError else Inr (x / y)),
      py_neg = (\<lambda>x. - x), py_gt = (\<lambda>x y. x > y), py_eq = (\<lambda>x y. x = y),
      math_log = (\<lambda>x. if x \<le> 0 then Inl ValueError else Inr (ln x)),
      math_exp = (\<lambda>x. Inr (exp x)),
      sort_by_score = (\<lambda>reverse xs. if reverse then sort_key (\<lambda>item. - fst item) xs
                                     else sort_key fst xs)\<rparr>"

subsection \<open>\<^verbatim>\<open>VectorIndex\<close>\<close>

text \<open>
  The embedding function is an external collaborator. Python passes it either one string
  or a list of strings; the two uses are the two fields here. It returns vectors of
  numbers, or raises.
\<close>

record embedder =
  embed_one :: "string \<Rightarrow> error + real list"
  embed_batch :: "string list \<Rightarrow> error + real list list"

record VectorIndex =
  vectors :: "real list list"
  documents :: "ref list"
  vector_dim :: "nat option"
  distance_metric :: string
  embedding_fn :: "embedder option"

definition VectorIndex_init :: "string \<Rightarrow> embedder option \<Rightarrow> error + VectorIndex" where
  "VectorIndex_init metric efn =
     (if metric \<notin> set [''cosine'', ''euclidean''] then Inl ValueError
      else Inr \<lparr>vectors = [], documents = [], vector_dim = None,
                distance_metric = metric, embedding_fn = efn\<rparr>)"

definition add_vector :: "store \<Rightarrow> VectorIndex \<Rightarrow> pyval \<Rightarrow> pyval \<Rightarrow> error + VectorIndex" where
  "add_vector h s vector document =
     (if \<not> is_number_list vector then Inl TypeError
      else case document of
        PDictRef r \<Rightarrow>
          (if h r ''content'' = None then Inl ValueError
           else if vectors s = [] then
             Inr (s\<lparr>vector_dim := Some (length (list_items vector)),
                    vectors := vectors s @ [map num_val (list_items vector)],
                    documents := documents s @ [r]\<rparr>)
           else if Some (length (list_items vector)) \<noteq> vector_dim s then Inl ValueError
           else
             Inr (s\<lparr>vectors := vectors s @ [map num_val (list_items vector)],
                    documents := documents s @ [r]\<rparr>))
      | _ \<Rightarrow> Inl TypeError)"

definition VectorIndex_add_document :: "store \<Rightarrow> VectorIndex \<Rightarrow> pyval \<Rightarrow> error + VectorIndex" where
  "VectorIndex_add_document h s document =
     (case embedding_fn s of
        None \<Rightarrow> Inl ValueError
      | Some ef \<Rightarrow>
          (case document of
             PDictRef r \<Rightarrow>
               (case h r ''content'' of
                  None \<Rightarrow> Inl ValueError
                | Some (PStr content) \<Rightarrow>
                    (case embed_one ef content of
                       Inl e \<Rightarrow> Inl e
                     | Inr v \<Rightarrow> add_vector h s (PList (map PFloat v)) document)
                | Some _ \<Rightarrow> Inl TypeError)
           | _ \<Rightarrow> Inl TypeError))"

text \<open>
  The validation loop of \<^verbatim>\<open>add_documents\<close>: it collects the contents, and raises at the
  first document that is no dictionary, has no \<^verbatim>\<open>content\<close> or whose content is no string.
\<close>

fun collect_contents :: "store \<Rightarrow> pyval list \<Rightarrow> error + string list" where
  "collect_contents h [] = Inr []"
| "collect_contents h (doc # docs) =
     (case doc of
        PDictRef r \<Rightarrow>
          (case h r ''content'' of
             None \<Rightarrow> Inl ValueError
           | Some (PStr c) \<Rightarrow>
               (case collect_contents h docs of Inl e \<Rightarrow> Inl e | Inr cs \<Rightarrow> Inr (c # cs))
           | Some _ \<Rightarrow> Inl TypeError)
      | _ \<Rightarrow> Inl TypeError)"

text \<open>
  The insertion loop over \<^verbatim>\<open>zip(vectors, documents)\<close>. An insertion that raises leaves the
  earlier ones in the index, so the loop returns the index it reached with the error.
\<close>

fun add_vector_loop ::
  "store \<Rightarrow> VectorIndex \<Rightarrow> (real list \<times> pyval) list \<Rightarrow> error option \<times> VectorIndex" where
  "add_vector_loop h s [] = (None, s)"
| "add_vector_loop h s ((v, d) # rest) =
     (case add_vector h s (PList (map PFloat v)) d of
        Inl e \<Rightarrow> (Some e, s)
      | Inr s' \<Rightarrow> add_vector_loop h s' rest)"

definition VectorIndex_add_documents ::
  "store \<Rightarrow> VectorIndex \<Rightarrow> pyval \<Rightarrow> error option \<times> VectorIndex" where
  "VectorIndex_add_documents h s docs =
     (case embedding_fn s of
        None \<Rightarrow> (Some ValueError, s)
      | Some ef \<Rightarrow>
          (case docs of
             PList ds \<Rightarrow>
               (if ds = [] then (None, s)
                else case collect_contents h ds of
                  Inl e \<Rightarrow> (Some e, s)
                | Inr contents \<Rightarrow>
                    (case embed_batch ef contents of
                       Inl e \<Rightarrow> (Some e, s)
                     | Inr vs \<Rightarrow> add_vector_loop h s (zip vs ds)))
           | _ \<Rightarrow> (Some TypeError, s)))"

definition euclidean_distance :: "real list \<Rightarrow> real list \<Rightarrow> error + real" where
  "euclidean_distance vec1 vec2 =
     (if length vec1 \<noteq> length vec2 then Inl ValueError
      else Inr (sqrt (sum_list (map (\<lambda>(p, q). (p - q) ^ 2) (zip vec1 vec2)))))"

definition dot_product :: "real list \<Rightarrow> real list \<Rightarrow> error + real" where
  "dot_product vec1 vec2 =
     (if length vec1 \<noteq> length vec2 then Inl ValueError
      else Inr (sum_list (map (\<lambda>(p, q). p * q) (zip vec1 vec2))))"

definition magnitude :: "real list \<Rightarrow> real" where
  "magnitude vec = sqrt (sum_list (map (\<lambda>x. x * x) vec))"

definition cosine_distance :: "real list \<Rightarrow> real list \<Rightarrow> error + real" where
  "cosine_distance vec1 vec2 =
     (if length vec1 \<noteq> length vec2 then Inl ValueError
      else let mag1 = magnitude vec1; mag2 = magnitude vec2 in
        if mag1 = 0 \<and> mag2 = 0 then Inr 0
        else if mag1 = 0 \<or> mag2 = 0 then Inr 1
        else case dot_product vec1 vec2 of
          Inl e \<Rightarrow> Inl e
        | Inr dot_prod \<Rightarrow>
            (let cosine_similarity = dot_prod / (mag1 * mag2);
                 cosine_similarity = max (- 1) (min 1 cosine_similarity)
             in Inr (1 - cosine_similarity)))"

text \<open>
  The loop of \<^verbatim>\<open>search\<close> over \<^verbatim>\<open>enumerate(self.vectors)\<close>: the distance is computed
  first, then \<^verbatim>\<open>self.documents[i]\<close> is read, which raises when there is no such document.
\<close>

fun distances_loop ::
  "(real list \<Rightarrow> real list \<Rightarrow> error + real) \<Rightarrow> real list \<Rightarrow> real list list \<Rightarrow> ref list
     \<Rightarrow> error + (real \<times> ref) list" where
  "distances_loop f qv [] ds = Inr []"
| "distances_loop f qv (v # vs) ds =
     (case f qv v of
        Inl e \<Rightarrow> Inl e
      | Inr distance \<Rightarrow>
          (case ds of
             [] \<Rightarrow> Inl IndexError
           | d # ds' \<Rightarrow>
               (case distances_loop f qv vs ds' of
                  Inl e \<Rightarrow> Inl e
                | Inr rest \<Rightarrow> Inr ((distance, d) # rest))))"

text \<open>
  The query vector: a string is embedded (an error without an embedding function), a list
  of numbers is taken as it is, anything else is a \<^verbatim>\<open>TypeError\<close>.
\<close>

definition query_vector_of :: "VectorIndex \<Rightarrow> pyval \<Rightarrow> error + real list" where
  "query_vector_of s query =
     (case query of
        PStr q \<Rightarrow>
          (case embedding_fn s of
             None \<Rightarrow> Inl ValueError
           | Some ef \<Rightarrow> embed_one ef q)
      | PList xs \<Rightarrow> (if list_all is_number xs then Inr (map num_val xs) else Inl TypeError)
      | _ \<Rightarrow> Inl TypeError)"

definition VectorIndex_search :: "VectorIndex \<Rightarrow> pyval \<Rightarrow> int \<Rightarrow> error + (ref \<times> real) list" where
  "VectorIndex_search s query k =
     (if vectors s = [] then Inr []
      else case query_vector_of s query of
        Inl e \<Rightarrow> Inl e
      | Inr qv \<Rightarrow>
          (case vector_dim s of
             None \<Rightarrow> Inr []
           | Some vdim \<Rightarrow>
               (if length qv \<noteq> vdim then Inl ValueError
                else if k \<le> 0 then Inl ValueError
                else case distances_loop
                       (if distance_metric s = ''cosine'' then cosine_distance
                        else euclidean_distance) qv (vectors s) (documents s) of
                  Inl e \<Rightarrow> Inl e
                | Inr distances \<Rightarrow>
                    Inr (map (\<lambda>(distance, doc). (doc, distance))
                          (take (nat k) (sort_key fst distances))))))"

subsection \<open>\<^verbatim>\<open>BM25Index\<close>\<close>

text \<open>
  The default tokenizer lowercases the text and splits it at every run of non-word
  characters, dropping empty tokens. Word characters are letters, digits and the
  underscore; the model is over ASCII text.
\<close>

definition is_word_char :: "char \<Rightarrow> bool" where
  "is_word_char c =
     (let n = (of_char c :: nat)
      in (48 \<le> n \<and> n \<le> 57) \<or> (65 \<le> n \<and> n \<le> 90) \<or> n = 95 \<or> (97 \<le> n \<and> n \<le> 122))"

definition lower_char :: "char \<Rightarrow> char" where
  "lower_char c =
     (let n = (of_char c :: nat) in if 65 \<le> n \<and> n \<le> 90 then char_of (n + 32) else c)"

fun split_tokens :: "string \<Rightarrow> string \<Rightarrow> string list" where
  "split_tokens cur [] = (if cur = [] then [] else [cur])"
| "split_tokens cur (c # cs) =
     (if is_word_char c then split_tokens (cur @ [c]) cs
      else (if cur = [] then [] else [cur]) @ split_tokens [] cs)"

definition default_tokenizer :: "string \<Rightarrow> string list" where
  "default_tokenizer text = split_tokens [] (map lower_char text)"

text \<open>
  \<^verbatim>\<open>_doc_freqs\<close> is a dictionary, which keeps its keys in the order of their first
  insertion; \<^verbatim>\<open>_calculate_idf\<close> goes through it in that order, so it is an association
  list here, updated in place or extended at its end.
\<close>

record 'f BM25Index =
  bm25_documents :: "ref list"
  corpus_tokens :: "string list list"
  doc_len :: "nat list"
  doc_freqs :: "(string \<times> nat) list"
  avg_doc_len :: 'f
  idf :: "string \<rightharpoonup> 'f"
  index_built :: bool
  bm25_k1 :: 'f
  bm25_b :: 'f
  tokenizer :: "string \<Rightarrow> string list"

definition BM25Index_init ::
  "'f number_ops \<Rightarrow> 'f \<Rightarrow> 'f \<Rightarrow> (string \<Rightarrow> string list) option \<Rightarrow> 'f BM25Index" where
  "BM25Index_init ar k1 b tok =
     \<lparr>bm25_documents = [], corpus_tokens = [], doc_len = [], doc_freqs = [],
      avg_doc_len = float_zero ar, idf = Map.empty, index_built = False,
      bm25_k1 = k1, bm25_b = b,
      tokenizer = (case tok of None \<Rightarrow> default_tokenizer | Some t \<Rightarrow> t)\<rparr>"

text \<open>The loop of \<^verbatim>\<open>_update_stats_add\<close>: a term counts once for each document.\<close>

fun update_freqs ::
  "string list \<Rightarrow> string set \<Rightarrow> (string \<times> nat) list \<Rightarrow> (string \<times> nat) list" where
  "update_freqs [] seen_in_doc df = df"
| "update_freqs (token # rest) seen_in_doc df =
     (if token \<notin> seen_in_doc then
        update_freqs rest (insert token seen_in_doc)
          (AList.update token ((case map_of df token of None \<Rightarrow> 0 | Some c \<Rightarrow> c) + 1) df)
      else update_freqs rest seen_in_doc df)"

definition update_stats_add :: "'f BM25Index \<Rightarrow> string list \<Rightarrow> 'f BM25Index" where
  "update_stats_add s doc_tokens =
     s\<lparr>doc_len := doc_len s @ [length doc_tokens],
       doc_freqs := update_freqs doc_tokens {} (doc_freqs s),
       index_built := False\<rparr>"

text \<open>
  \<^verbatim>\<open>math.log(((N - freq + 0.5) / (freq + 0.5)) + 1)\<close>, where \<^verbatim>\<open>N - freq\<close> is a difference
  of ints.
\<close>

definition idf_score :: "'f number_ops \<Rightarrow> nat \<Rightarrow> nat \<Rightarrow> error + 'f" where
  "idf_score ar N freq =
     op1 (math_log ar)
       (op2 (py_add ar)
          (op2 (py_div ar)
             (py_add ar (py_int ar (int N - int freq)) (float_half ar))
             (py_add ar (py_int ar (int freq)) (float_half ar)))
          (Inr (py_int ar 1)))"

text \<open>
  The loop of \<^verbatim>\<open>_calculate_idf\<close> over the items of \<^verbatim>\<open>_doc_freqs\<close>. An exception leaves the
  entries written so far in \<^verbatim>\<open>_idf\<close>.
\<close>

fun idf_loop ::
  "'f number_ops \<Rightarrow> nat \<Rightarrow> (string \<times> nat) list \<Rightarrow> (string \<rightharpoonup> 'f)
     \<Rightarrow> error option \<times> (string \<rightharpoonup> 'f)" where
  "idf_loop ar N [] idf_map = (None, idf_map)"
| "idf_loop ar N ((tm, freq) # rest) idf_map =
     (case idf_score ar N freq of
        Inl e \<Rightarrow> (Some e, idf_map)
      | Inr v \<Rightarrow> idf_loop ar N rest (idf_map(tm \<mapsto> v)))"

definition calculate_idf :: "'f number_ops \<Rightarrow> 'f BM25Index \<Rightarrow> error option \<times> 'f BM25Index" where
  "calculate_idf ar s =
     (case idf_loop ar (length (bm25_documents s)) (doc_freqs s) Map.empty of
        (e, idf_map) \<Rightarrow> (e, s\<lparr>idf := idf_map\<rparr>))"

text \<open>
  \<^verbatim>\<open>_build_index\<close>. The average is \<^verbatim>\<open>sum(self._doc_len) / len(self.documents)\<close>, a quotient
  of two ints; \<^verbatim>\<open>_index_built\<close> is set only when nothing has raised.
\<close>

definition build_index :: "'f number_ops \<Rightarrow> 'f BM25Index \<Rightarrow> error option \<times> 'f BM25Index" where
  "build_index ar s =
     (if bm25_documents s = [] then
        (None, s\<lparr>avg_doc_len := float_zero ar, idf := Map.empty, index_built := True\<rparr>)
      else case py_div ar (py_int ar (int (sum_list (doc_len s))))
                  (py_int ar (int (length (bm25_documents s)))) of
        Inl e \<Rightarrow> (Some e, s)
      | Inr avg \<Rightarrow>
          (case calculate_idf ar (s\<lparr>avg_doc_len := avg\<rparr>) of
             (Some e, s') \<Rightarrow> (Some e, s')
           | (None, s') \<Rightarrow> (None, s'\<lparr>index_built := True\<rparr>)))"

definition BM25Index_add_document ::
  "store \<Rightarrow> 'f BM25Index \<Rightarrow> pyval \<Rightarrow> error + 'f BM25Index" where
  "BM25Index_add_document h s document =
     (case document of
        PDictRef r \<Rightarrow>
          (case h r ''content'' of
             None \<Rightarrow> Inl ValueError
           | Some (PStr content) \<Rightarrow>
               (let doc_tokens = tokenizer s content
                in Inr (update_stats_add
                     (s\<lparr>bm25_documents := bm25_documents s @ [r],
                        corpus_tokens := corpus_tokens s @ [doc_tokens]\<rparr>) doc_tokens))
           | Some _ \<Rightarrow> Inl TypeError)
      | _ \<Rightarrow> Inl TypeError)"

text \<open>
  The loop of \<^verbatim>\<open>add_documents\<close> validates and inserts one document after the other, so a
  document that is refused leaves the ones before it in the index.
\<close>

fun add_documents_loop ::
  "store \<Rightarrow> 'f BM25Index \<Rightarrow> pyval list \<Rightarrow> error option \<times> 'f BM25Index" where
  "add_documents_loop h s [] = (None, s)"
| "add_documents_loop h s (doc # rest) =
     (case doc of
        PDictRef r \<Rightarrow>
          (case h r ''content'' of
             None \<Rightarrow> (Some ValueError, s)
           | Some (PStr content) \<Rightarrow>
               (let doc_tokens = tokenizer s content
                in add_documents_loop h
                     (update_stats_add
                       (s\<lparr>bm25_documents := bm25_documents s @ [r],
                          corpus_tokens := corpus_tokens s @ [doc_tokens]\<rparr>) doc_tokens) rest)
           | Some _ \<Rightarrow> (Some TypeError, s))
      | _ \<Rightarrow> (Some TypeError, s))"

definition BM25Index_add_documents ::
  "store \<Rightarrow> 'f BM25Index \<Rightarrow> pyval \<Rightarrow> error option \<times> 'f BM25Index" where
  "BM25Index_add_documents h s docs =
     (case docs of
        PList ds \<Rightarrow>
          (if ds = [] then (None, s)
           else case add_documents_loop h s ds of
             (Some e, s') \<Rightarrow> (Some e, s')
           | (None, s') \<Rightarrow> (None, s'\<lparr>index_built := False\<rparr>))
      | _ \<Rightarrow> (Some TypeError, s))"

text \<open>Python indexing of a list: a negative index counts from the end.\<close>

definition py_index :: "'a list \<Rightarrow> int \<Rightarrow> error + 'a" where
  "py_index xs i =
     (if 0 \<le> i \<and> i < int (length xs) then Inr (xs ! nat i)
      else if i < 0 \<and> - int (length xs) \<le> i then Inr (xs ! nat (int (length xs) + i))
      else Inl IndexError)"

text \<open>
  The loop of \<^verbatim>\<open>_compute_bm25_score\<close> over the query tokens. The numerator is
  \<^verbatim>\<open>idf * term_freq * (self.k1 + 1)\<close>, the denominator
  \<^verbatim>\<open>term_freq + self.k1 * (1 - self.b + self.b * (doc_length / self._avg_doc_len))\<close>, and
  the score grows by \<^verbatim>\<open>numerator / (denominator + 1e-9)\<close>; \<^verbatim>\<open>term_freq\<close> and \<^verbatim>\<open>doc_length\<close>
  are ints.
\<close>

fun score_loop ::
  "'f number_ops \<Rightarrow> 'f BM25Index \<Rightarrow> string list \<Rightarrow> nat \<Rightarrow> string list \<Rightarrow> 'f \<Rightarrow> error + 'f" where
  "score_loop ar s doc_tokens doc_length [] score = Inr score"
| "score_loop ar s doc_tokens doc_length (token # rest) score =
     (case idf s token of
        None \<Rightarrow> score_loop ar s doc_tokens doc_length rest score
      | Some idf_t \<Rightarrow>
          (let term_freq = py_int ar (int (count_list doc_tokens token));
               numerator =
                 op2 (py_mul ar) (py_mul ar idf_t term_freq)
                   (py_add ar (bm25_k1 s) (py_int ar 1));
               denominator =
                 op2 (py_add ar) (Inr term_freq)
                   (op2 (py_mul ar) (Inr (bm25_k1 s))
                      (op2 (py_add ar) (py_sub ar (py_int ar 1) (bm25_b s))
                         (op2 (py_mul ar) (Inr (bm25_b s))
                            (py_div ar (py_int ar (int doc_length)) (avg_doc_len s)))))
           in case op2 (py_add ar) (Inr score)
                     (op2 (py_div ar) numerator
                        (op2 (py_add ar) denominator (Inr (float_eps ar)))) of
                Inl e \<Rightarrow> Inl e
              | Inr score' \<Rightarrow> score_loop ar s doc_tokens doc_length rest score'))"

definition compute_bm25_score ::
  "'f number_ops \<Rightarrow> 'f BM25Index \<Rightarrow> string list \<Rightarrow> int \<Rightarrow> error + 'f" where
  "compute_bm25_score ar s query_tokens doc_index =
     (case py_index (corpus_tokens s) doc_index of
        Inl e \<Rightarrow> Inl e
      | Inr doc_tokens \<Rightarrow>
          (case py_index (doc_len s) doc_index of
             Inl e \<Rightarrow> Inl e
           | Inr doc_length \<Rightarrow>
               score_loop ar s doc_tokens doc_length query_tokens (float_zero ar)))"

text \<open>The loop of \<^verbatim>\<open>search\<close> over \<^verbatim>\<open>range(len(self.documents))\<close>.\<close>

fun raw_scores_loop ::
  "'f number_ops \<Rightarrow> 'f BM25Index \<Rightarrow> string list \<Rightarrow> nat list \<Rightarrow> error + ('f \<times> ref) list" where
  "raw_scores_loop ar s query_tokens [] = Inr []"
| "raw_scores_loop ar s query_tokens (i # rest) =
     (case compute_bm25_score ar s query_tokens (int i) of
        Inl e \<Rightarrow> Inl e
      | Inr raw_score \<Rightarrow>
          (case raw_scores_loop ar s query_tokens rest of
             Inl e \<Rightarrow> Inl e
           | Inr raw_scores \<Rightarrow>
               Inr (if py_gt ar raw_score (float_eps ar)
                    then (raw_score, bm25_documents s ! i) # raw_scores
                    else raw_scores)))"

text \<open>
  The loop over \<^verbatim>\<open>raw_scores[:k]\<close>, with
  \<^verbatim>\<open>math.exp(-score_normalization_factor * raw_score)\<close>.
\<close>

fun normalize_loop ::
  "'f number_ops \<Rightarrow> 'f \<Rightarrow> ('f \<times> ref) list \<Rightarrow> error + (ref \<times> 'f) list" where
  "normalize_loop ar factor [] = Inr []"
| "normalize_loop ar factor ((raw_score, doc) # rest) =
     (case op1 (math_exp ar) (py_mul ar (py_neg ar factor) raw_score) of
        Inl e \<Rightarrow> Inl e
      | Inr normalized_score \<Rightarrow>
          (case normalize_loop ar factor rest of
             Inl e \<Rightarrow> Inl e
           | Inr normalized_results \<Rightarrow> Inr ((doc, normalized_score) # normalized_results)))"

text \<open>
  \<^verbatim>\<open>search\<close> rebuilds the derived statistics when they are stale, so it returns the index
  with its result. The last sort is by the second component of the pairs.
\<close>

definition BM25Index_search ::
  "'f number_ops \<Rightarrow> 'f BM25Index \<Rightarrow> pyval \<Rightarrow> int \<Rightarrow> 'f
     \<Rightarrow> (error + (ref \<times> 'f) list) \<times> 'f BM25Index" where
  "BM25Index_search ar s query k score_normalization_factor =
     (if bm25_documents s = [] then (Inr [], s)
      else case query of
        PStr query_text \<Rightarrow>
          (if k \<le> 0 then (Inl ValueError, s)
           else case (if \<not> index_built s then build_index ar s else (None, s)) of
             (Some e, s') \<Rightarrow> (Inl e, s')
           | (None, s') \<Rightarrow>
               if py_eq ar (avg_doc_len s') (py_int ar 0) then (Inr [], s')
               else let query_tokens = tokenizer s' query_text in
                 if query_tokens = [] then (Inr [], s')
                 else case raw_scores_loop ar s' query_tokens
                             [0..<length (bm25_documents s')] of
                   Inl e \<Rightarrow> (Inl e, s')
                 | Inr raw_scores \<Rightarrow>
                     (case normalize_loop ar score_normalization_factor
                             (take (nat k) (sort_by_score ar True raw_scores)) of
                        Inl e \<Rightarrow> (Inl e, s')
                      | Inr normalized_results \<Rightarrow>
                          (Inr (map prod.swap
                                 (sort_by_score ar False (map prod.swap normalized_results))),
                           s')))
      | _ \<Rightarrow> (Inl TypeError, s))"

subsection \<open>\<^verbatim>\<open>Retriever\<close>\<close>

text \<open>
  An underlying index is anything with the \<^verbatim>\<open>search\<close> of the \<^verbatim>\<open>SearchIndex\<close> protocol:
  here the function from the query and \<open>k\<close> to the ranked documents, or an exception.
  The reranking function is an external collaborator; it is given the store, since it
  reads the candidate documents, and returns identifiers.
\<close>

type_synonym search_results = "(ref \<times> real) list"

type_synonym search_index = "pyval \<Rightarrow> int \<Rightarrow> error + search_results"

type_synonym reranker = "store \<Rightarrow> ref list \<Rightarrow> string \<Rightarrow> int \<Rightarrow> error + pyval list"

record Retriever =
  indexes :: "search_index list"
  reranker_fn :: "reranker option"

definition Retriever_init :: "search_index list \<Rightarrow> reranker option \<Rightarrow> error + Retriever" where
  "Retriever_init idxs rr =
     (if length idxs = 0 then Inl ValueError
      else Inr \<lparr>indexes = idxs, reranker_fn = rr\<rparr>)"

text \<open>\<^verbatim>\<open>[index.search(query_text, k=k * 5) for index in self._indexes]\<close>\<close>

fun search_all :: "search_index list \<Rightarrow> pyval \<Rightarrow> int \<Rightarrow> error + search_results list" where
  "search_all [] query k = Inr []"
| "search_all (index # rest) query k =
     (case index query k of
        Inl e \<Rightarrow> Inl e
      | Inr results \<Rightarrow>
          (case search_all rest query k of
             Inl e \<Rightarrow> Inl e
           | Inr all_results \<Rightarrow> Inr (results # all_results)))"

text \<open>
  \<^verbatim>\<open>doc_ranks\<close> is a dictionary keyed by \<^verbatim>\<open>id(doc)\<close>; a dictionary keeps its keys in the
  order of their first insertion, so it is an association list here. A rank is \<open>None\<close>
  for \<^verbatim>\<open>float("inf")\<close>.
\<close>

type_synonym doc_ranks = "(ref \<times> nat option list) list"

text \<open>The body of the inner loop: the entry is created when missing, then updated.\<close>

definition set_rank :: "nat \<Rightarrow> nat \<Rightarrow> nat \<Rightarrow> ref \<Rightarrow> doc_ranks \<Rightarrow> doc_ranks" where
  "set_rank n idx rank doc dr =
     (let dr' = (if doc \<notin> fst ` set dr then dr @ [(doc, replicate n None)] else dr)
      in map (\<lambda>(d, ranks). if d = doc then (d, ranks[idx := Some (rank + 1)]) else (d, ranks)) dr')"

fun rank_results :: "nat \<Rightarrow> nat \<Rightarrow> nat \<Rightarrow> search_results \<Rightarrow> doc_ranks \<Rightarrow> doc_ranks" where
  "rank_results n idx rank [] dr = dr"
| "rank_results n idx rank ((doc, _) # rest) dr =
     rank_results n idx (Suc rank) rest (set_rank n idx rank doc dr)"

fun rank_all :: "nat \<Rightarrow> nat \<Rightarrow> search_results list \<Rightarrow> doc_ranks \<Rightarrow> doc_ranks" where
  "rank_all n idx [] dr = dr"
| "rank_all n idx (results # rest) dr =
     rank_all n (Suc idx) rest (rank_results n idx 0 results dr)"

text \<open>
  \<^verbatim>\<open>sum(1.0 / (k_rrf + r) for r in ranks if r != float("inf"))\<close>. The divisor is at least 1,
  since \<^verbatim>\<open>search\<close> refuses a negative \<^verbatim>\<open>k_rrf\<close> and a rank is at least 1.
\<close>

fun calc_rrf_score :: "int \<Rightarrow> nat option list \<Rightarrow> real" where
  "calc_rrf_score k_rrf [] = 0"
| "calc_rrf_score k_rrf (None # ranks) = calc_rrf_score k_rrf ranks"
| "calc_rrf_score k_rrf (Some r # ranks) =
     1 / (real_of_int k_rrf + real r) + calc_rrf_score k_rrf ranks"

text \<open>The fusion of \<^verbatim>\<open>search\<close>, from the indexes' results to the first \<open>k\<close> fused ones.\<close>

definition rrf_fuse :: "int \<Rightarrow> int \<Rightarrow> search_results list \<Rightarrow> search_results" where
  "rrf_fuse k k_rrf all_results =
     (let doc_ranks = rank_all (length all_results) 0 all_results [];
          scored_docs = map (\<lambda>(doc, ranks). (doc, calc_rrf_score k_rrf ranks)) doc_ranks;
          filtered_docs = filter (\<lambda>(doc, score). score > 0) scored_docs
      in take (nat k) (sort_key (\<lambda>x. - snd x) filtered_docs))"

text \<open>
  A dictionary key is found by hash and equality: \<^verbatim>\<open>1\<close>, \<^verbatim>\<open>1.0\<close> and \<^verbatim>\<open>True\<close> are one key,
  and a list or a dictionary is unhashable.
\<close>

datatype key = KNone | KNum real | KStr string

fun hash_key :: "pyval \<Rightarrow> error + key" where
  "hash_key PNone = Inr KNone"
| "hash_key (PBool b) = Inr (KNum (if b then 1 else 0))"
| "hash_key (PInt i) = Inr (KNum (real_of_int i))"
| "hash_key (PFloat x) = Inr (KNum x)"
| "hash_key (PStr s) = Inr (KStr s)"
| "hash_key (PList _) = Inl TypeError"
| "hash_key (PDictRef _) = Inl TypeError"

text \<open>
  The random identifiers are the successive values of \<open>rnd\<close>; \<open>n\<close> counts the draws.
\<close>

fun assign_ids :: "(nat \<Rightarrow> string) \<Rightarrow> nat \<Rightarrow> store \<Rightarrow> ref list \<Rightarrow> store" where
  "assign_ids rnd n h [] = h"
| "assign_ids rnd n h (doc # rest) =
     (if h doc ''id'' = None
      then assign_ids rnd (Suc n) (h(doc := (h doc)(''id'' \<mapsto> PStr (rnd n)))) rest
      else assign_ids rnd n h rest)"

text \<open>\<^verbatim>\<open>{doc["id"]: doc for doc in docs_only}\<close>: a later document replaces an earlier one.\<close>

fun build_lookup :: "store \<Rightarrow> ref list \<Rightarrow> (key \<rightharpoonup> ref) \<Rightarrow> error + (key \<rightharpoonup> ref)" where
  "build_lookup h [] doc_lookup = Inr doc_lookup"
| "build_lookup h (doc # rest) doc_lookup =
     (case h doc ''id'' of
        None \<Rightarrow> Inl KeyError
      | Some v \<Rightarrow>
          (case hash_key v of
             Inl e \<Rightarrow> Inl e
           | Inr kk \<Rightarrow> build_lookup h rest (doc_lookup(kk \<mapsto> doc))))"

text \<open>The loop over \<^verbatim>\<open>reranked_ids\<close>.\<close>

fun rerank_loop :: "(key \<rightharpoonup> ref) \<Rightarrow> (ref \<rightharpoonup> real) \<Rightarrow> pyval list \<Rightarrow> error + search_results" where
  "rerank_loop doc_lookup original_scores [] = Inr []"
| "rerank_loop doc_lookup original_scores (doc_id # rest) =
     (case hash_key doc_id of
        Inl e \<Rightarrow> Inl e
      | Inr kk \<Rightarrow>
          (case rerank_loop doc_lookup original_scores rest of
             Inl e \<Rightarrow> Inl e
           | Inr new_result \<Rightarrow>
               (case doc_lookup kk of
                  None \<Rightarrow> Inr new_result
                | Some doc \<Rightarrow>
                    Inr ((doc, (case original_scores doc of None \<Rightarrow> 0 | Some score \<Rightarrow> score))
                         # new_result))))"

text \<open>
  The reranking branch of \<^verbatim>\<open>search\<close>. It writes the missing identifiers into the
  documents, so it returns the store; \<^verbatim>\<open>original_scores\<close> is a dictionary comprehension,
  where the last pair of a key wins.
\<close>

definition rerank ::
  "reranker \<Rightarrow> (nat \<Rightarrow> string) \<Rightarrow> store \<Rightarrow> string \<Rightarrow> int \<Rightarrow> search_results
     \<Rightarrow> (error + search_results) \<times> store" where
  "rerank rr rnd h query_text k result =
     (let docs_only = map fst result;
          h' = assign_ids rnd 0 h docs_only
      in case build_lookup h' docs_only Map.empty of
           Inl e \<Rightarrow> (Inl e, h')
         | Inr doc_lookup \<Rightarrow>
             (case rr h' docs_only query_text k of
                Inl e \<Rightarrow> (Inl e, h')
              | Inr reranked_ids \<Rightarrow>
                  (rerank_loop doc_lookup (map_of (rev result)) reranked_ids, h')))"

definition Retriever_search ::
  "Retriever \<Rightarrow> (nat \<Rightarrow> string) \<Rightarrow> store \<Rightarrow> pyval \<Rightarrow> int \<Rightarrow> int
     \<Rightarrow> (error + search_results) \<times> store" where
  "Retriever_search rt rnd h query k k_rrf =
     (case query of
        PStr query_text \<Rightarrow>
          (if k \<le> 0 then (Inl ValueError, h)
           else if k_rrf < 0 then (Inl ValueError, h)
           else case search_all (indexes rt) query (k * 5) of
             Inl e \<Rightarrow> (Inl e, h)
           | Inr all_results \<Rightarrow>
               (let result = rrf_fuse k k_rrf all_results
                in case reranker_fn rt of
                     None \<Rightarrow> (Inr result, h)
                   | Some rr \<Rightarrow> rerank rr rnd h query_text k result))
      | _ \<Rightarrow> (Inl TypeError, h))"

subsection \<open>Notions of the specification\<close>

text \<open>
  The indexes reached from an index by insertions, through any of the three operations and
  with any store; a batch insertion that raises still leaves the index it reached.
\<close>

inductive vi_reach :: "VectorIndex \<Rightarrow> VectorIndex \<Rightarrow> bool" where
  reach_refl: "vi_reach s s"
| reach_add_vector: "vi_reach s s1 \<Longrightarrow> add_vector h s1 v d = Inr s2 \<Longrightarrow> vi_reach s s2"
| reach_add_document:
    "vi_reach s s1 \<Longrightarrow> VectorIndex_add_document h s1 d = Inr s2 \<Longrightarrow> vi_reach s s2"
| reach_add_documents:
    "vi_reach s s1 \<Longrightarrow> VectorIndex_add_documents h s1 ds = (e, s2) \<Longrightarrow> vi_reach s s2"

text \<open>
  The invariant of the dimension: every stored vector has the length recorded as the
  dimension of the index.
\<close>

definition dim_inv :: "VectorIndex \<Rightarrow> bool" where
  "dim_inv s = (\<forall>u\<in>set (vectors s). vector_dim s = Some (length u))"

text \<open>
  An insertion, with the vector that the operation hands to \<^verbatim>\<open>add_vector\<close> first: the
  argument of \<^verbatim>\<open>add_vector\<close> itself, the embedding of the content for \<^verbatim>\<open>add_document\<close>,
  and the first embedding of the batch for \<^verbatim>\<open>add_documents\<close>.
\<close>

inductive inserts_first :: "VectorIndex \<Rightarrow> real list \<Rightarrow> VectorIndex \<Rightarrow> bool" where
  first_add_vector:
    "add_vector h s v d = Inr s1 \<Longrightarrow> inserts_first s (map num_val (list_items v)) s1"
| first_add_document:
    "embedding_fn s = Some ef \<Longrightarrow> h r ''content'' = Some (PStr c) \<Longrightarrow>
     embed_one ef c = Inr vec \<Longrightarrow> VectorIndex_add_document h s (PDictRef r) = Inr s1 \<Longrightarrow>
     inserts_first s vec s1"
| first_add_documents:
    "embedding_fn s = Some ef \<Longrightarrow> collect_contents h ds = Inr contents \<Longrightarrow>
     embed_batch ef contents = Inr (vec # vecs) \<Longrightarrow> ds \<noteq> [] \<Longrightarrow>
     VectorIndex_add_documents h s (PList ds) = (e, s1) \<Longrightarrow>
     inserts_first s vec s1"

text \<open>
  A document has a string content when it is a dictionary whose \<^verbatim>\<open>content\<close> is a string,
  empty or not.
\<close>

definition has_string_content :: "store \<Rightarrow> pyval \<Rightarrow> bool" where
  "has_string_content h d =
     (case d of
        PDictRef r \<Rightarrow> (case h r ''content'' of Some (PStr c) \<Rightarrow> True | _ \<Rightarrow> False)
      | _ \<Rightarrow> False)"




text \<open>
  The quantities of the scoring formula, read off the token lists of the corpus: the
  number of documents that contain a term, the inverse document frequency
  \<open>ln ((N - df + 0.5) / (df + 0.5) + 1)\<close>, the average length, the score of one term
  \<open>idf \<cdot> tf \<cdot> (k1 + 1) / (tf + k1 \<cdot> (1 - b + b \<cdot> |d| / avglen) + \<epsilon>)\<close>, and the sum over the
  query tokens that occur in the corpus, all with the operations on numbers of the code.
\<close>

definition doc_frequency :: "string list list \<Rightarrow> string \<Rightarrow> nat" where
  "doc_frequency corpus t = length (filter (\<lambda>d. t \<in> set d) corpus)"

definition idf_spec :: "'f number_ops \<Rightarrow> string list list \<Rightarrow> string \<Rightarrow> error + 'f" where
  "idf_spec ar corpus t =
     op1 (math_log ar)
       (op2 (py_add ar)
          (op2 (py_div ar)
             (py_add ar (py_int ar (int (length corpus) - int (doc_frequency corpus t)))
                (float_half ar))
             (py_add ar (py_int ar (int (doc_frequency corpus t))) (float_half ar)))
          (Inr (py_int ar 1)))"

definition avglen_spec :: "'f number_ops \<Rightarrow> string list list \<Rightarrow> error + 'f" where
  "avglen_spec ar corpus =
     py_div ar (py_int ar (int (sum_list (map length corpus)))) (py_int ar (int (length corpus)))"

definition term_score_spec ::
  "'f number_ops \<Rightarrow> 'f \<Rightarrow> 'f \<Rightarrow> 'f \<Rightarrow> nat \<Rightarrow> nat \<Rightarrow> 'f \<Rightarrow> error + 'f" where
  "term_score_spec ar k1 b idf_t tf dl avglen =
     op2 (py_div ar)
       (op2 (py_mul ar) (py_mul ar idf_t (py_int ar (int tf))) (py_add ar k1 (py_int ar 1)))
       (op2 (py_add ar)
          (op2 (py_add ar) (Inr (py_int ar (int tf)))
             (op2 (py_mul ar) (Inr k1)
                (op2 (py_add ar) (py_sub ar (py_int ar 1) b)
                   (op2 (py_mul ar) (Inr b) (py_div ar (py_int ar (int dl)) avglen)))))
          (Inr (float_eps ar)))"

fun bm25_sum_spec ::
  "'f number_ops \<Rightarrow> 'f \<Rightarrow> 'f \<Rightarrow> string list list \<Rightarrow> 'f \<Rightarrow> string list \<Rightarrow> string list \<Rightarrow> 'f
     \<Rightarrow> error + 'f" where
  "bm25_sum_spec ar k1 b corpus avglen d [] acc = Inr acc"
| "bm25_sum_spec ar k1 b corpus avglen d (t # ts) acc =
     (if doc_frequency corpus t = 0 then bm25_sum_spec ar k1 b corpus avglen d ts acc
      else case op2 (py_add ar) (Inr acc)
                  (case idf_spec ar corpus t of
                     Inl e \<Rightarrow> Inl e
                   | Inr idf_t \<Rightarrow>
                       term_score_spec ar k1 b idf_t (count_list d t) (length d) avglen) of
             Inl e \<Rightarrow> Inl e
           | Inr acc' \<Rightarrow> bm25_sum_spec ar k1 b corpus avglen d ts acc')"

definition bm25_score_spec ::
  "'f number_ops \<Rightarrow> 'f \<Rightarrow> 'f \<Rightarrow> string list list \<Rightarrow> string list \<Rightarrow> nat \<Rightarrow> error + 'f" where
  "bm25_score_spec ar k1 b corpus query_tokens i =
     (case avglen_spec ar corpus of
        Inl e \<Rightarrow> Inl e
      | Inr avglen \<Rightarrow>
          bm25_sum_spec ar k1 b corpus avglen (corpus ! i) query_tokens (float_zero ar))"

text \<open>
  The indexes reached from an index by insertions and searches; a search may rebuild the
  statistics, and an operation that raises still leaves the index it reached.
\<close>

inductive bm25_reach :: "'f number_ops \<Rightarrow> 'f BM25Index \<Rightarrow> 'f BM25Index \<Rightarrow> bool"
  for ar :: "'f number_ops" where
  bm25_refl: "bm25_reach ar s s"
| bm25_add_document:
    "bm25_reach ar s s1 \<Longrightarrow> BM25Index_add_document h s1 d = Inr s2 \<Longrightarrow> bm25_reach ar s s2"
| bm25_add_documents:
    "bm25_reach ar s s1 \<Longrightarrow> BM25Index_add_documents h s1 ds = (e, s2) \<Longrightarrow> bm25_reach ar s s2"
| bm25_search:
    "bm25_reach ar s s1 \<Longrightarrow> BM25Index_search ar s1 q k f = (r, s2) \<Longrightarrow> bm25_reach ar s s2"

text \<open>
  The invariant of the lexical index: the token lists, the lengths and the document
  frequencies describe the same corpus, and the statistics of a built index are those of
  its corpus.
\<close>

definition bm25_inv :: "'f number_ops \<Rightarrow> 'f BM25Index \<Rightarrow> bool" where
  "bm25_inv ar s \<longleftrightarrow>
     length (corpus_tokens s) = length (bm25_documents s)
     \<and> doc_len s = map length (corpus_tokens s)
     \<and> distinct (map fst (doc_freqs s))
     \<and> (\<forall>t. map_of (doc_freqs s) t
             = (if doc_frequency (corpus_tokens s) t = 0 then None
                else Some (doc_frequency (corpus_tokens s) t)))
     \<and> (index_built s \<and> bm25_documents s \<noteq> [] \<longrightarrow>
          avglen_spec ar (corpus_tokens s) = Inr (avg_doc_len s)
          \<and> (\<forall>t. if doc_frequency (corpus_tokens s) t = 0 then idf s t = None
                  else \<exists>v. idf_spec ar (corpus_tokens s) t = Inr v \<and> idf s t = Some v))"

section \<open>Properties\<close>

subsection \<open>Text queries without an embedding function\<close>

text \<open>
  C8, as the code has it. Without an embedding function, a text query fails on an index
  that holds a vector; the empty index answers the empty list before it looks at the
  query.
\<close>

theorem search_text_without_embedding:
  assumes "embedding_fn s = None"
  shows "VectorIndex_search s (PStr q) k = (if vectors s = [] then Inr [] else Inl ValueError)"
  using assms by (simp add: VectorIndex_search_def query_vector_of_def)

theorem search_text_without_embedding_witness:
  "embedding_fn \<lparr>vectors = [[1, 0]], documents = [0], vector_dim = Some 2,
      distance_metric = ''cosine'', embedding_fn = None\<rparr> = None
   \<and> VectorIndex_search \<lparr>vectors = [[1, 0]], documents = [0], vector_dim = Some 2,
      distance_metric = ''cosine'', embedding_fn = None\<rparr> (PStr ''cat'') 1 = Inl ValueError"
  using search_text_without_embedding
    [of "\<lparr>vectors = [[1, 0]], documents = [0], vector_dim = Some 2,
      distance_metric = ''cosine'', embedding_fn = None\<rparr>" "''cat''" 1]
  by simp

text \<open>
  The claim as stated, that the search fails in every state, is false on the empty index.
\<close>

theorem search_text_empty_index_counterexample:
  "VectorIndex_init ''cosine'' None
     = Inr \<lparr>vectors = [], documents = [], vector_dim = None,
            distance_metric = ''cosine'', embedding_fn = None\<rparr>
   \<and> VectorIndex_search \<lparr>vectors = [], documents = [], vector_dim = None,
        distance_metric = ''cosine'', embedding_fn = None\<rparr> (PStr ''cat'') 1 = Inr []"
  by (simp add: VectorIndex_init_def VectorIndex_search_def)

subsection \<open>The dimension of the dense index\<close>

lemma add_vector_result:
  assumes "add_vector h s v d = Inr s'"
  shows "vectors s' = vectors s @ [map num_val (list_items v)]
         \<and> (if vectors s = [] then vector_dim s' = Some (length (list_items v))
            else vector_dim s' = vector_dim s \<and> vector_dim s = Some (length (list_items v)))"
  using assms
  by (auto simp: add_vector_def split: if_splits pyval.splits)

lemma add_vector_keeps_dim:
  "vectors s \<noteq> [] \<Longrightarrow> add_vector h s v d = Inr s' \<Longrightarrow>
     vectors s' \<noteq> [] \<and> vector_dim s' = vector_dim s \<and> hd (vectors s') = hd (vectors s)"
  using add_vector_result [of h s v d s'] by auto

lemma add_vector_dim_inv: "dim_inv s \<Longrightarrow> add_vector h s v d = Inr s' \<Longrightarrow> dim_inv s'"
  using add_vector_result [of h s v d s'] by (auto simp: dim_inv_def split: if_splits)

lemma add_document_keeps_dim:
  "vectors s \<noteq> [] \<Longrightarrow> VectorIndex_add_document h s d = Inr s' \<Longrightarrow>
     vectors s' \<noteq> [] \<and> vector_dim s' = vector_dim s \<and> hd (vectors s') = hd (vectors s)"
  by (auto simp: VectorIndex_add_document_def dest: add_vector_keeps_dim
      split: option.splits pyval.splits sum.splits)

lemma add_document_dim_inv:
  "dim_inv s \<Longrightarrow> VectorIndex_add_document h s d = Inr s' \<Longrightarrow> dim_inv s'"
  by (auto simp: VectorIndex_add_document_def dest: add_vector_dim_inv
      split: option.splits pyval.splits sum.splits)

lemma add_vector_loop_keeps_dim:
  "vectors s \<noteq> [] \<Longrightarrow> add_vector_loop h s vds = (e, s') \<Longrightarrow>
     vectors s' \<noteq> [] \<and> vector_dim s' = vector_dim s \<and> hd (vectors s') = hd (vectors s)"
proof (induction vds arbitrary: s)
  case Nil
  then show ?case by simp
next
  case (Cons a vds)
  obtain v d where a: "a = (v, d)" by (cases a)
  show ?case
  proof (cases "add_vector h s (PList (map PFloat v)) d")
    case (Inl err)
    with Cons.prems a show ?thesis by simp
  next
    case (Inr s1)
    with Cons.prems(1)
    have "vectors s1 \<noteq> [] \<and> vector_dim s1 = vector_dim s \<and> hd (vectors s1) = hd (vectors s)"
      using add_vector_keeps_dim by blast
    moreover from Cons.prems(2) a Inr have "add_vector_loop h s1 vds = (e, s')" by simp
    ultimately show ?thesis using Cons.IH by fastforce
  qed
qed

lemma add_vector_loop_dim_inv:
  "dim_inv s \<Longrightarrow> add_vector_loop h s vds = (e, s') \<Longrightarrow> dim_inv s'"
proof (induction vds arbitrary: s)
  case Nil
  then show ?case by simp
next
  case (Cons a vds)
  obtain v d where a: "a = (v, d)" by (cases a)
  show ?case
  proof (cases "add_vector h s (PList (map PFloat v)) d")
    case (Inl err)
    with Cons.prems a show ?thesis by simp
  next
    case (Inr s1)
    with Cons.prems(1) have "dim_inv s1" using add_vector_dim_inv by blast
    moreover from Cons.prems(2) a Inr have "add_vector_loop h s1 vds = (e, s')" by simp
    ultimately show ?thesis using Cons.IH by blast
  qed
qed

lemma add_documents_keeps_dim:
  "vectors s \<noteq> [] \<Longrightarrow> VectorIndex_add_documents h s ds = (e, s') \<Longrightarrow>
     vectors s' \<noteq> [] \<and> vector_dim s' = vector_dim s \<and> hd (vectors s') = hd (vectors s)"
  by (auto simp: VectorIndex_add_documents_def dest: add_vector_loop_keeps_dim
      split: option.splits pyval.splits sum.splits if_splits)

lemma add_documents_dim_inv:
  "dim_inv s \<Longrightarrow> VectorIndex_add_documents h s ds = (e, s') \<Longrightarrow> dim_inv s'"
  by (auto simp: VectorIndex_add_documents_def dest: add_vector_loop_dim_inv
      split: option.splits pyval.splits sum.splits if_splits)

lemma vi_reach_keeps_dim:
  "vi_reach s s' \<Longrightarrow> vectors s \<noteq> [] \<Longrightarrow>
     vectors s' \<noteq> [] \<and> vector_dim s' = vector_dim s \<and> hd (vectors s') = hd (vectors s)"
proof (induction rule: vi_reach.induct)
  case (reach_refl s)
  then show ?case by simp
next
  case (reach_add_vector s s1 h v d s2)
  then show ?case using add_vector_keeps_dim by metis
next
  case (reach_add_document s s1 h d s2)
  then show ?case using add_document_keeps_dim by metis
next
  case (reach_add_documents s s1 h ds e s2)
  then show ?case using add_documents_keeps_dim by metis
qed

lemma vi_reach_dim_inv: "vi_reach s s' \<Longrightarrow> dim_inv s \<Longrightarrow> dim_inv s'"
proof (induction rule: vi_reach.induct)
  case (reach_refl s)
  then show ?case by simp
next
  case (reach_add_vector s s1 h v d s2)
  then show ?case using add_vector_dim_inv by blast
next
  case (reach_add_document s s1 h d s2)
  then show ?case using add_document_dim_inv by blast
next
  case (reach_add_documents s s1 h ds e s2)
  then show ?case using add_documents_dim_inv by blast
qed

lemma add_vector_mismatch:
  "vectors s \<noteq> [] \<Longrightarrow> vector_dim s = Some n \<Longrightarrow> length (list_items w) \<noteq> n \<Longrightarrow>
     isl (add_vector h s w d)"
  by (auto simp: add_vector_def split: pyval.splits)

text \<open>The first insertion into an index without vectors, for each of the operations.\<close>

lemma add_vector_first:
  assumes "vectors s = []" and "add_vector h s v d = Inr s1"
  shows "vectors s1 = [map num_val (list_items v)]
         \<and> vector_dim s1 = Some (length (map num_val (list_items v)))"
  using add_vector_result [OF assms(2)] assms(1) by simp

lemma add_vector_floats:
  "add_vector h s (PList (map PFloat vec)) d = Inr s1 \<Longrightarrow> vectors s = [] \<Longrightarrow>
     vectors s1 = [vec] \<and> vector_dim s1 = Some (length vec)"
  using add_vector_first [of s h "PList (map PFloat vec)" d s1]
  by (simp add: comp_def)

lemma add_document_first:
  assumes "vectors s = []" and "embedding_fn s = Some ef" and "h r ''content'' = Some (PStr c)"
    and "embed_one ef c = Inr vec" and "VectorIndex_add_document h s (PDictRef r) = Inr s1"
  shows "vectors s1 = [vec] \<and> vector_dim s1 = Some (length vec)"
proof -
  from assms(2-5) have "add_vector h s (PList (map PFloat vec)) (PDictRef r) = Inr s1"
    by (simp add: VectorIndex_add_document_def)
  then show ?thesis using assms(1) by (rule add_vector_floats)
qed

lemma collect_contents_Cons:
  "collect_contents h (d # ds) = Inr cs \<Longrightarrow> \<exists>r. d = PDictRef r \<and> h r ''content'' \<noteq> None"
  by (auto split: pyval.splits option.splits sum.splits)

lemma add_documents_first:
  assumes "vectors s = []" and "embedding_fn s = Some ef"
    and "collect_contents h ds = Inr contents" and "embed_batch ef contents = Inr (vec # vecs)"
    and "ds \<noteq> []" and "VectorIndex_add_documents h s (PList ds) = (e, s1)"
  shows "vectors s1 \<noteq> [] \<and> hd (vectors s1) = vec \<and> vector_dim s1 = Some (length vec)"
proof -
  from assms(5) obtain d ds' where ds: "ds = d # ds'" by (cases ds) auto
  from assms(3) ds obtain r where d: "d = PDictRef r" "h r ''content'' \<noteq> None"
    using collect_contents_Cons by blast
  from assms(2-6) ds
  have loop: "add_vector_loop h s ((vec, d) # zip vecs ds') = (e, s1)"
    by (simp add: VectorIndex_add_documents_def)
  from d assms(1) obtain s' where
    s': "add_vector h s (PList (map PFloat vec)) d = Inr s'"
    by (auto simp: add_vector_def list_all_iff)
  then have first: "vectors s' = [vec] \<and> vector_dim s' = Some (length vec)"
    using assms(1) by (rule add_vector_floats)
  from loop s' have "add_vector_loop h s' (zip vecs ds') = (e, s1)" by simp
  from add_vector_loop_keeps_dim [OF _ this] first show ?thesis by simp
qed

lemma inserts_first_dim:
  assumes "inserts_first s vec s1" and "vectors s = []"
  shows "vectors s1 \<noteq> [] \<and> hd (vectors s1) = vec \<and> vector_dim s1 = Some (length vec)"
  using assms
proof (induction rule: inserts_first.induct)
  case (first_add_vector h s v d s1)
  from add_vector_first [OF this(2) this(1)] show ?case by simp
next
  case (first_add_document s ef h r c vec s1)
  from add_document_first [OF this(5) this(1-4)] show ?case by simp
next
  case (first_add_documents s ef h ds contents vec vecs e s1)
  from add_documents_first [OF this(6) this(1-5)] show ?case by simp
qed

lemma inserts_first_dim_inv:
  assumes "inserts_first s vec s1" and "dim_inv s"
  shows "dim_inv s1"
  using assms
proof (induction rule: inserts_first.induct)
  case (first_add_vector h s v d s1)
  then show ?case using add_vector_dim_inv by blast
next
  case (first_add_document s ef h r c vec s1)
  then show ?case using add_document_dim_inv by blast
next
  case (first_add_documents s ef h ds contents vec vecs e s1)
  then show ?case using add_documents_dim_inv by blast
qed

text \<open>
  Every index with a vector that is reached from an index without vectors has gone through
  such a first insertion.
\<close>

lemma add_document_inserts_first:
  assumes "VectorIndex_add_document h s d = Inr s1"
  shows "\<exists>vec. inserts_first s vec s1"
proof -
  from assms obtain ef r c vec where
    "embedding_fn s = Some ef" "d = PDictRef r" "h r ''content'' = Some (PStr c)"
    "embed_one ef c = Inr vec"
    by (auto simp: VectorIndex_add_document_def
        split: option.splits pyval.splits sum.splits)
  with assms show ?thesis using first_add_document by blast
qed

lemma add_documents_inserts_first:
  assumes "VectorIndex_add_documents h s docs = (e, s1)" and "vectors s = []"
    and "vectors s1 \<noteq> []"
  shows "\<exists>vec. inserts_first s vec s1"
proof -
  from assms(1) consider (same) "s1 = s"
    | (loop) ef ds cs vs where "embedding_fn s = Some ef" "docs = PList ds" "ds \<noteq> []"
        "collect_contents h ds = Inr cs" "embed_batch ef cs = Inr vs"
        "add_vector_loop h s (zip vs ds) = (e, s1)"
    by (auto simp: VectorIndex_add_documents_def
        split: option.splits sum.splits if_splits pyval.splits)
  then show ?thesis
  proof cases
    case same
    with assms(2,3) show ?thesis by simp
  next
    case loop
    show ?thesis
    proof (cases vs)
      case Nil
      with loop(6) assms(2,3) show ?thesis by simp
    next
      case (Cons vec vecs)
      with loop assms(1) show ?thesis using first_add_documents by blast
    qed
  qed
qed

lemma vi_reach_inserts_first:
  assumes "vi_reach s0 s2" and "vectors s0 = []" and "vectors s2 \<noteq> []"
  shows "\<exists>s vec s1. vi_reach s0 s \<and> vectors s = [] \<and> inserts_first s vec s1 \<and> vi_reach s1 s2"
  using assms
proof (induction rule: vi_reach.induct)
  case (reach_refl s)
  then show ?case by simp
next
  case (reach_add_vector s0 s1 h v d s2)
  show ?case
  proof (cases "vectors s1 = []")
    case True
    from reach_add_vector.hyps(2) have "inserts_first s1 (map num_val (list_items v)) s2"
      by (rule first_add_vector)
    with reach_add_vector.hyps(1) True show ?thesis using vi_reach.reach_refl by blast
  next
    case False
    with reach_add_vector.IH reach_add_vector.prems(1) obtain s vec s' where
      "vi_reach s0 s" "vectors s = []" "inserts_first s vec s'" "vi_reach s' s1" by blast
    moreover from this(4) reach_add_vector.hyps(2) have "vi_reach s' s2"
      by (rule vi_reach.reach_add_vector)
    ultimately show ?thesis by blast
  qed
next
  case (reach_add_document s0 s1 h d s2)
  show ?case
  proof (cases "vectors s1 = []")
    case True
    from add_document_inserts_first [OF reach_add_document.hyps(2)]
    obtain vec where "inserts_first s1 vec s2" ..
    with reach_add_document.hyps(1) True show ?thesis using vi_reach.reach_refl by blast
  next
    case False
    with reach_add_document.IH reach_add_document.prems(1) obtain s vec s' where
      "vi_reach s0 s" "vectors s = []" "inserts_first s vec s'" "vi_reach s' s1" by blast
    moreover from this(4) reach_add_document.hyps(2) have "vi_reach s' s2"
      by (rule vi_reach.reach_add_document)
    ultimately show ?thesis by blast
  qed
next
  case (reach_add_documents s0 s1 h ds e s2)
  show ?case
  proof (cases "vectors s1 = []")
    case True
    from add_documents_inserts_first [OF reach_add_documents.hyps(2) True
        reach_add_documents.prems(2)]
    obtain vec where "inserts_first s1 vec s2" ..
    with reach_add_documents.hyps(1) True show ?thesis using vi_reach.reach_refl by blast
  next
    case False
    with reach_add_documents.IH reach_add_documents.prems(1) obtain s vec s' where
      "vi_reach s0 s" "vectors s = []" "inserts_first s vec s'" "vi_reach s' s1" by blast
    moreover from this(4) reach_add_documents.hyps(2) have "vi_reach s' s2"
      by (rule vi_reach.reach_add_documents)
    ultimately show ?thesis by blast
  qed
qed

text \<open>
  C6. Take an index without vectors and the first insertion into it, by \<^verbatim>\<open>add_vector\<close>,
  \<^verbatim>\<open>add_document\<close> or \<^verbatim>\<open>add_documents\<close>: the dimension of the index is then the length of
  the vector that this insertion stores first. In every index reached from there by any
  further insertions the dimension is still that length, the first stored vector is still
  that vector, every stored vector has that length, and \<^verbatim>\<open>add_vector\<close> fails on every vector
  of another length.
\<close>

theorem dimension_invariant:
  assumes "vectors s = []"
    and "inserts_first s vec s1"
    and "vi_reach s1 s2"
  shows "vector_dim s1 = Some (length vec)
         \<and> hd (vectors s1) = vec
         \<and> vector_dim s2 = Some (length vec)
         \<and> hd (vectors s2) = vec
         \<and> (\<forall>u\<in>set (vectors s2). length u = length vec)
         \<and> (\<forall>h w d. length (list_items w) \<noteq> length vec \<longrightarrow> isl (add_vector h s2 w d))"
proof -
  from inserts_first_dim [OF assms(2,1)]
  have s1: "vectors s1 \<noteq> []" "hd (vectors s1) = vec" "vector_dim s1 = Some (length vec)"
    by simp_all
  from vi_reach_keeps_dim [OF assms(3) s1(1)] s1
  have s2: "vectors s2 \<noteq> []" "hd (vectors s2) = vec" "vector_dim s2 = Some (length vec)"
    by simp_all
  from assms(1) have "dim_inv s" by (simp add: dim_inv_def)
  with assms(2) have "dim_inv s1" by (rule inserts_first_dim_inv)
  with assms(3) have "dim_inv s2" by (rule vi_reach_dim_inv)
  with s2(3) have all: "\<forall>u\<in>set (vectors s2). length u = length vec"
    by (simp add: dim_inv_def)
  have "\<forall>h w d. length (list_items w) \<noteq> length vec \<longrightarrow> isl (add_vector h s2 w d)"
    using add_vector_mismatch [OF s2(1) s2(3)] by blast
  with s1 s2 all show ?thesis by simp
qed

theorem dimension_invariant_witness:
  "add_vector (\<lambda>r. [''content'' \<mapsto> PStr ''a''])
       \<lparr>vectors = [], documents = [], vector_dim = None,
        distance_metric = ''cosine'', embedding_fn = None\<rparr>
       (PList [PInt 5, PInt 6, PInt 7]) (PDictRef 0)
     = Inr \<lparr>vectors = [[5, 6, 7]], documents = [0], vector_dim = Some 3,
            distance_metric = ''cosine'', embedding_fn = None\<rparr>
   \<and> add_vector (\<lambda>r. [''content'' \<mapsto> PStr ''a''])
       \<lparr>vectors = [[5, 6, 7]], documents = [0], vector_dim = Some 3,
        distance_metric = ''cosine'', embedding_fn = None\<rparr>
       (PList [PFloat 1, PInt 2, PBool True]) (PDictRef 1)
     = Inr \<lparr>vectors = [[5, 6, 7], [1, 2, 1]], documents = [0, 1], vector_dim = Some 3,
            distance_metric = ''cosine'', embedding_fn = None\<rparr>
   \<and> isl (add_vector (\<lambda>r. [''content'' \<mapsto> PStr ''a''])
       \<lparr>vectors = [[5, 6, 7], [1, 2, 1]], documents = [0, 1], vector_dim = Some 3,
        distance_metric = ''cosine'', embedding_fn = None\<rparr>
       (PList [PInt 1, PInt 2]) (PDictRef 2))"
proof -
  let ?h = "\<lambda>r::ref. [''content'' \<mapsto> PStr ''a'']"
  let ?s0 = "\<lparr>vectors = [], documents = [], vector_dim = None,
        distance_metric = ''cosine'', embedding_fn = None\<rparr>"
  let ?s1 = "\<lparr>vectors = [[5, 6, 7]], documents = [0], vector_dim = Some 3,
        distance_metric = ''cosine'', embedding_fn = None\<rparr>"
  let ?s2 = "\<lparr>vectors = [[5, 6, 7], [1, 2, 1]], documents = [0, 1], vector_dim = Some 3,
        distance_metric = ''cosine'', embedding_fn = None\<rparr>"
  have e: "vectors ?s0 = []" by simp
  have a1: "add_vector ?h ?s0 (PList [PInt 5, PInt 6, PInt 7]) (PDictRef 0) = Inr ?s1"
    by (simp add: add_vector_def)
  have a2: "add_vector ?h ?s1 (PList [PFloat 1, PInt 2, PBool True]) (PDictRef 1) = Inr ?s2"
    by (simp add: add_vector_def)
  have f: "inserts_first ?s0 (map num_val (list_items (PList [PInt 5, PInt 6, PInt 7]))) ?s1"
    using a1 by (rule first_add_vector)
  have r: "vi_reach ?s1 ?s2"
    using reach_add_vector [OF reach_refl a2] .
  from dimension_invariant [OF e f r]
  have "isl (add_vector ?h ?s2 (PList [PInt 1, PInt 2]) (PDictRef 2))"
    by simp
  with a1 a2 show ?thesis by simp
qed

subsection \<open>Validation of the content of a document\<close>

lemma has_string_content_ref:
  "has_string_content h (PDictRef r) \<longleftrightarrow> (\<exists>c. h r ''content'' = Some (PStr c))"
  by (auto simp: has_string_content_def split: option.splits pyval.splits)

lemma has_string_contentD:
  assumes "has_string_content h d"
  shows "\<exists>r c. d = PDictRef r \<and> h r ''content'' = Some (PStr c)"
proof (cases d)
  case (PDictRef r)
  with assms show ?thesis by (simp add: has_string_content_ref)
qed (use assms in \<open>simp_all add: has_string_content_def\<close>)

lemma bm25_add_document_inserted:
  assumes "BM25Index_add_document h s d = Inr s'"
  shows "has_string_content h d \<and> (\<exists>r. d = PDictRef r \<and> bm25_documents s' = bm25_documents s @ [r])"
proof (cases d)
  case (PDictRef r)
  show ?thesis
  proof (cases "h r ''content''")
    case None
    with assms PDictRef show ?thesis by (simp add: BM25Index_add_document_def)
  next
    case (Some v)
    with assms PDictRef show ?thesis
      by (cases v)
        (auto simp: BM25Index_add_document_def has_string_content_ref update_stats_add_def
          Let_def)
  qed
qed (use assms in \<open>simp_all add: BM25Index_add_document_def\<close>)

lemma bm25_add_document_refuses:
  "\<not> has_string_content h d \<Longrightarrow> isl (BM25Index_add_document h s d)"
  using bm25_add_document_inserted [of h s d] by (cases "BM25Index_add_document h s d") auto

lemma add_documents_loop_good:
  "h r ''content'' = Some (PStr c) \<Longrightarrow>
     add_documents_loop h s (PDictRef r # ds)
       = add_documents_loop h
           (update_stats_add
              (s\<lparr>bm25_documents := bm25_documents s @ [r],
                 corpus_tokens := corpus_tokens s @ [tokenizer s c]\<rparr>) (tokenizer s c)) ds"
  by (simp add: Let_def)

lemma add_documents_loop_bad:
  assumes "\<not> has_string_content h d"
  shows "\<exists>e. add_documents_loop h s (d # ds) = (Some e, s)"
proof (cases d)
  case (PDictRef r)
  show ?thesis
  proof (cases "h r ''content''")
    case None
    with PDictRef show ?thesis by simp
  next
    case (Some v)
    with assms PDictRef show ?thesis by (cases v) (simp_all add: has_string_content_ref)
  qed
qed simp_all

lemma add_documents_loop_refuses:
  "\<exists>d\<in>set ds. \<not> has_string_content h d \<Longrightarrow> fst (add_documents_loop h s ds) \<noteq> None"
proof (induction ds arbitrary: s)
  case Nil
  then show ?case by simp
next
  case (Cons d ds)
  show ?case
  proof (cases "has_string_content h d")
    case True
    then obtain r c where d: "d = PDictRef r" "h r ''content'' = Some (PStr c)"
      using has_string_contentD by blast
    from Cons.prems True have rest: "\<exists>d\<in>set ds. \<not> has_string_content h d" by auto
    from Cons.IH [OF rest] show ?thesis
      unfolding d(1) add_documents_loop_good [of h r c, OF d(2)] .
  next
    case False
    from add_documents_loop_bad [OF this, of s ds] show ?thesis by auto
  qed
qed

lemma add_documents_loop_inserted:
  "add_documents_loop h s ds = (e, s') \<Longrightarrow>
     \<exists>rs. bm25_documents s' = bm25_documents s @ rs
        \<and> (\<forall>r\<in>set rs. has_string_content h (PDictRef r))"
proof (induction ds arbitrary: s)
  case Nil
  then show ?case by simp
next
  case (Cons d ds)
  show ?case
  proof (cases "has_string_content h d")
    case True
    then obtain r c where d: "d = PDictRef r" "h r ''content'' = Some (PStr c)"
      using has_string_contentD by blast
    let ?s1 = "update_stats_add
                 (s\<lparr>bm25_documents := bm25_documents s @ [r],
                    corpus_tokens := corpus_tokens s @ [tokenizer s c]\<rparr>) (tokenizer s c)"
    from Cons.prems have "add_documents_loop h ?s1 ds = (e, s')"
      unfolding d(1) add_documents_loop_good [of h r c, OF d(2)] .
    from Cons.IH [OF this] obtain rs where
      rs: "bm25_documents s' = bm25_documents ?s1 @ rs"
          "\<forall>r\<in>set rs. has_string_content h (PDictRef r)" by blast
    have "bm25_documents s' = bm25_documents s @ (r # rs)"
      using rs(1) by (simp add: update_stats_add_def)
    moreover have "\<forall>x\<in>set (r # rs). has_string_content h (PDictRef x)"
      using rs(2) True d(1) by simp
    ultimately show ?thesis by blast
  next
    case False
    from add_documents_loop_bad [OF this, of s ds] Cons.prems have "s' = s" by auto
    then show ?thesis by simp
  qed
qed

lemma bm25_add_documents_refuses:
  "\<exists>d\<in>set ds. \<not> has_string_content h d \<Longrightarrow>
     fst (BM25Index_add_documents h s (PList ds)) \<noteq> None"
  using add_documents_loop_refuses [of ds h s]
  by (auto simp: BM25Index_add_documents_def split: prod.splits option.splits)

lemma bm25_add_documents_inserted:
  assumes "BM25Index_add_documents h s docs = (e, s')"
  shows "\<exists>rs. bm25_documents s' = bm25_documents s @ rs
            \<and> (\<forall>r\<in>set rs. has_string_content h (PDictRef r))"
proof (cases docs)
  case (PList ds)
  show ?thesis
  proof (cases "ds = []")
    case True
    with assms PList show ?thesis by (simp add: BM25Index_add_documents_def)
  next
    case False
    obtain e1 s1 where l: "add_documents_loop h s ds = (e1, s1)" by fastforce
    with assms PList False have "bm25_documents s' = bm25_documents s1"
      by (auto simp: BM25Index_add_documents_def split: option.splits)
    with add_documents_loop_inserted [OF l] show ?thesis by simp
  qed
qed (use assms in \<open>auto simp: BM25Index_add_documents_def\<close>)

lemma add_vector_documents:
  "add_vector h v vec d = Inr v' \<Longrightarrow> \<exists>r. d = PDictRef r \<and> documents v' = documents v @ [r]"
  by (auto simp: add_vector_def split: if_splits pyval.splits)

lemma vi_add_document_inserted:
  assumes "VectorIndex_add_document h v d = Inr v'"
  shows "has_string_content h d \<and> (\<exists>r. d = PDictRef r \<and> documents v' = documents v @ [r])"
proof -
  from assms obtain ef r c vec where
    f: "embedding_fn v = Some ef" "d = PDictRef r" "h r ''content'' = Some (PStr c)"
      "embed_one ef c = Inr vec"
    by (auto simp: VectorIndex_add_document_def
        split: option.splits pyval.splits sum.splits)
  with assms have "add_vector h v (PList (map PFloat vec)) d = Inr v'"
    by (simp add: VectorIndex_add_document_def)
  from add_vector_documents [OF this] f(2,3) show ?thesis
    by (simp add: has_string_content_ref)
qed

lemma vi_add_document_refuses:
  "\<not> has_string_content h d \<Longrightarrow> isl (VectorIndex_add_document h v d)"
  using vi_add_document_inserted [of h v d] by (cases "VectorIndex_add_document h v d") auto

lemma collect_contents_step:
  assumes "collect_contents h (d # ds) = Inr cs"
  shows "has_string_content h d \<and> (\<exists>cs'. collect_contents h ds = Inr cs')"
proof (cases d)
  case (PDictRef r)
  show ?thesis
  proof (cases "h r ''content''")
    case None
    with assms PDictRef show ?thesis by simp
  next
    case (Some v)
    with assms PDictRef show ?thesis
      by (cases v; cases "collect_contents h ds") (simp_all add: has_string_content_ref)
  qed
qed (use assms in simp_all)

lemma collect_contents_all:
  "collect_contents h ds = Inr cs \<Longrightarrow> \<forall>d\<in>set ds. has_string_content h d"
proof (induction ds arbitrary: cs)
  case Nil
  then show ?case by simp
next
  case (Cons d ds)
  from collect_contents_step [OF Cons.prems] Cons.IH show ?case by auto
qed

lemma collect_contents_refuses:
  "\<exists>d\<in>set ds. \<not> has_string_content h d \<Longrightarrow> isl (collect_contents h ds)"
  using collect_contents_all [of h ds] by (cases "collect_contents h ds") auto

lemma vi_add_documents_refuses:
  "\<exists>d\<in>set ds. \<not> has_string_content h d \<Longrightarrow>
     VectorIndex_add_documents h v (PList ds) = (e, v') \<Longrightarrow> e \<noteq> None \<and> v' = v"
  using collect_contents_refuses [of ds h]
  by (auto simp: VectorIndex_add_documents_def split: option.splits sum.splits if_splits)

lemma add_vector_loop_inserted:
  "add_vector_loop h v vds = (e, v') \<Longrightarrow>
     \<exists>rs. documents v' = documents v @ rs \<and> PDictRef ` set rs \<subseteq> snd ` set vds"
proof (induction vds arbitrary: v)
  case Nil
  then show ?case by simp
next
  case (Cons a vds)
  obtain vec d where a: "a = (vec, d)" by (cases a)
  show ?case
  proof (cases "add_vector h v (PList (map PFloat vec)) d")
    case (Inl err)
    with Cons.prems a show ?thesis by simp
  next
    case (Inr v1)
    then obtain r where r: "d = PDictRef r" "documents v1 = documents v @ [r]"
      using add_vector_documents by blast
    from Cons.prems a Inr have "add_vector_loop h v1 vds = (e, v')" by simp
    from Cons.IH [OF this] obtain rs where
      rs: "documents v' = documents v1 @ rs" "PDictRef ` set rs \<subseteq> snd ` set vds" by blast
    have "documents v' = documents v @ (r # rs)" using rs(1) r(2) by simp
    moreover have "PDictRef ` set (r # rs) \<subseteq> snd ` set (a # vds)"
      using rs(2) r(1) a by auto
    ultimately show ?thesis by blast
  qed
qed

lemma vi_add_documents_inserted:
  assumes "VectorIndex_add_documents h v docs = (e, v')"
  shows "\<exists>rs. documents v' = documents v @ rs
            \<and> (\<forall>r\<in>set rs. has_string_content h (PDictRef r))"
proof -
  consider (same) "v' = v"
    | (loop) ds cs vs where "docs = PList ds" "collect_contents h ds = Inr cs"
        "add_vector_loop h v (zip vs ds) = (e, v')"
    using assms
    by (auto simp: VectorIndex_add_documents_def
        split: option.splits sum.splits if_splits pyval.splits)
  then show ?thesis
  proof cases
    case same
    then show ?thesis by simp
  next
    case loop
    from add_vector_loop_inserted [OF loop(3)] obtain rs where
      rs: "documents v' = documents v @ rs" "PDictRef ` set rs \<subseteq> snd ` set (zip vs ds)"
      by blast
    have "\<forall>r\<in>set rs. has_string_content h (PDictRef r)"
    proof
      fix r assume "r \<in> set rs"
      with rs(2) have "PDictRef r \<in> snd ` set (zip vs ds)" by blast
      then have "PDictRef r \<in> set ds" by (auto dest: set_zip_rightD)
      with collect_contents_all [OF loop(2)] show "has_string_content h (PDictRef r)" by blast
    qed
    with rs(1) show ?thesis by blast
  qed
qed

text \<open>
  C7, as the code has it. In both indexes \<^verbatim>\<open>add_document\<close> and \<^verbatim>\<open>add_documents\<close> fail on
  a document whose \<^verbatim>\<open>content\<close> is missing or is no string, and every document they insert
  has a string content. The string may be empty: no insertion tests it.
\<close>

theorem content_validation:
  "(\<not> has_string_content h d \<longrightarrow>
       isl (BM25Index_add_document h s d) \<and> isl (VectorIndex_add_document h v d))
   \<and> ((\<exists>x\<in>set ds. \<not> has_string_content h x) \<longrightarrow>
       fst (BM25Index_add_documents h s (PList ds)) \<noteq> None
       \<and> fst (VectorIndex_add_documents h v (PList ds)) \<noteq> None
       \<and> snd (VectorIndex_add_documents h v (PList ds)) = v)
   \<and> (BM25Index_add_document h s d = Inr s' \<longrightarrow>
       has_string_content h d \<and> (\<exists>r. d = PDictRef r \<and> bm25_documents s' = bm25_documents s @ [r]))
   \<and> (VectorIndex_add_document h v d = Inr v' \<longrightarrow>
       has_string_content h d \<and> (\<exists>r. d = PDictRef r \<and> documents v' = documents v @ [r]))
   \<and> (BM25Index_add_documents h s docs = (e, s') \<longrightarrow>
       (\<exists>rs. bm25_documents s' = bm25_documents s @ rs
          \<and> (\<forall>r\<in>set rs. has_string_content h (PDictRef r))))
   \<and> (VectorIndex_add_documents h v docs = (e, v') \<longrightarrow>
       (\<exists>rs. documents v' = documents v @ rs
          \<and> (\<forall>r\<in>set rs. has_string_content h (PDictRef r))))"
proof -
  have c1: "\<not> has_string_content h d \<longrightarrow>
       isl (BM25Index_add_document h s d) \<and> isl (VectorIndex_add_document h v d)"
    using bm25_add_document_refuses vi_add_document_refuses by blast
  have c2: "(\<exists>x\<in>set ds. \<not> has_string_content h x) \<longrightarrow>
       fst (BM25Index_add_documents h s (PList ds)) \<noteq> None
       \<and> fst (VectorIndex_add_documents h v (PList ds)) \<noteq> None
       \<and> snd (VectorIndex_add_documents h v (PList ds)) = v"
  proof
    assume bad: "\<exists>x\<in>set ds. \<not> has_string_content h x"
    obtain e1 v1 where r: "VectorIndex_add_documents h v (PList ds) = (e1, v1)" by fastforce
    from vi_add_documents_refuses [OF bad r] r bm25_add_documents_refuses [OF bad]
    show "fst (BM25Index_add_documents h s (PList ds)) \<noteq> None
       \<and> fst (VectorIndex_add_documents h v (PList ds)) \<noteq> None
       \<and> snd (VectorIndex_add_documents h v (PList ds)) = v"
      by simp
  qed
  have c3: "BM25Index_add_document h s d = Inr s' \<longrightarrow>
       has_string_content h d \<and> (\<exists>r. d = PDictRef r \<and> bm25_documents s' = bm25_documents s @ [r])"
    using bm25_add_document_inserted by blast
  have c4: "VectorIndex_add_document h v d = Inr v' \<longrightarrow>
       has_string_content h d \<and> (\<exists>r. d = PDictRef r \<and> documents v' = documents v @ [r])"
    using vi_add_document_inserted by blast
  have c5: "BM25Index_add_documents h s docs = (e, s') \<longrightarrow>
       (\<exists>rs. bm25_documents s' = bm25_documents s @ rs
          \<and> (\<forall>r\<in>set rs. has_string_content h (PDictRef r)))"
    using bm25_add_documents_inserted by blast
  have c6: "VectorIndex_add_documents h v docs = (e, v') \<longrightarrow>
       (\<exists>rs. documents v' = documents v @ rs
          \<and> (\<forall>r\<in>set rs. has_string_content h (PDictRef r)))"
    using vi_add_documents_inserted by blast
  show ?thesis
    by (intro conjI) (fact c1 c2 c3 c4 c5 c6)+
qed

text \<open>
  The claim as stated also asks for a failure on the empty string. Both indexes insert a
  document whose content is the empty string (the dense one as soon as the embedding
  function returns a vector for it).
\<close>

theorem empty_content_accepted_counterexample:
  "BM25Index_add_document (\<lambda>r. [''content'' \<mapsto> PStr '''']) (BM25Index_init exact_ops (3 / 2) (3 / 4) None)
     (PDictRef 0)
   = Inr ((BM25Index_init exact_ops (3 / 2) (3 / 4) None)
       \<lparr>bm25_documents := [0], corpus_tokens := [[]], doc_len := [0]\<rparr>)
   \<and> VectorIndex_add_document (\<lambda>r. [''content'' \<mapsto> PStr ''''])
       \<lparr>vectors = [], documents = [], vector_dim = None, distance_metric = ''cosine'',
        embedding_fn = Some \<lparr>embed_one = \<lambda>c. Inr [1, 0], embed_batch = \<lambda>cs. Inr []\<rparr>\<rparr>
       (PDictRef 0)
   = Inr \<lparr>vectors = [[1, 0]], documents = [0], vector_dim = Some 2,
          distance_metric = ''cosine'',
          embedding_fn = Some \<lparr>embed_one = \<lambda>c. Inr [1, 0], embed_batch = \<lambda>cs. Inr []\<rparr>\<rparr>"
  by (simp add: BM25Index_add_document_def BM25Index_init_def update_stats_add_def
      default_tokenizer_def VectorIndex_add_document_def add_vector_def)

theorem content_validation_witness:
  "\<not> has_string_content (\<lambda>r. [''content'' \<mapsto> PInt 5]) (PDictRef 0)
   \<and> isl (BM25Index_add_document (\<lambda>r. [''content'' \<mapsto> PInt 5])
        (BM25Index_init exact_ops (3 / 2) (3 / 4) None) (PDictRef 0))
   \<and> isl (VectorIndex_add_document (\<lambda>r. [''content'' \<mapsto> PInt 5])
        \<lparr>vectors = [], documents = [], vector_dim = None, distance_metric = ''cosine'',
         embedding_fn = Some \<lparr>embed_one = \<lambda>c. Inr [1, 0], embed_batch = \<lambda>cs. Inr []\<rparr>\<rparr>
        (PDictRef 0))
   \<and> fst (BM25Index_add_documents (\<lambda>r. [''content'' \<mapsto> PInt 5])
        (BM25Index_init exact_ops (3 / 2) (3 / 4) None) (PList [PDictRef 0])) \<noteq> None
   \<and> fst (VectorIndex_add_documents (\<lambda>r. [''content'' \<mapsto> PInt 5])
        \<lparr>vectors = [], documents = [], vector_dim = None, distance_metric = ''cosine'',
         embedding_fn = Some \<lparr>embed_one = \<lambda>c. Inr [1, 0], embed_batch = \<lambda>cs. Inr []\<rparr>\<rparr>
        (PList [PDictRef 0])) \<noteq> None"
  using content_validation [of "\<lambda>r. [''content'' \<mapsto> PInt 5]" "PDictRef 0"
      "BM25Index_init exact_ops (3 / 2) (3 / 4) None"
      "\<lparr>vectors = [], documents = [], vector_dim = None, distance_metric = ''cosine'',
         embedding_fn = Some \<lparr>embed_one = \<lambda>c. Inr [1, 0], embed_batch = \<lambda>cs. Inr []\<rparr>\<rparr>"
      "[PDictRef 0]"]
  by (simp add: has_string_content_def)

subsection \<open>The reranking branch of the retriever\<close>
















subsection \<open>Candidates that share an identifier\<close>




subsection \<open>The scores of the lexical index\<close>

lemma update_freqs_distinct:
  "distinct (map fst df) \<Longrightarrow> distinct (map fst (update_freqs ts seen df))"
  by (induction ts arbitrary: seen df) (simp_all add: distinct_update)

lemma update_freqs_map_of:
  "map_of (update_freqs ts seen df) t =
     (if t \<in> set ts - seen then Some ((case map_of df t of None \<Rightarrow> 0 | Some c \<Rightarrow> c) + 1)
      else map_of df t)"
proof (induction ts arbitrary: seen df)
  case Nil
  then show ?case by simp
next
  case (Cons token rest)
  show ?case
  proof (cases "token \<in> seen")
    case True
    then have step: "update_freqs (token # rest) seen df = update_freqs rest seen df" by simp
    from True have "t \<in> set (token # rest) - seen \<longleftrightarrow> t \<in> set rest - seen" by auto
    with Cons.IH [of seen df] show ?thesis unfolding step by simp
  next
    case False
    let ?df' = "AList.update token ((case map_of df token of None \<Rightarrow> 0 | Some c \<Rightarrow> c) + 1) df"
    from False have
      step: "update_freqs (token # rest) seen df = update_freqs rest (insert token seen) ?df'"
      by simp
    have m: "map_of ?df'
               = (map_of df)(token \<mapsto> (case map_of df token of None \<Rightarrow> 0 | Some c \<Rightarrow> c) + 1)"
      by (rule update_conv')
    note ih = Cons.IH [of "insert token seen" ?df']
    show ?thesis
    proof (cases "t = token")
      case True
      with False have "t \<in> set (token # rest) - seen" by simp
      moreover from True have "t \<notin> set rest - insert token seen" by simp
      ultimately show ?thesis unfolding step using ih m True by simp
    next
      case neq: False
      then have "t \<in> set (token # rest) - seen \<longleftrightarrow> t \<in> set rest - insert token seen"
        by auto
      with neq show ?thesis unfolding step using ih m by simp
    qed
  qed
qed

lemma doc_frequency_append:
  "doc_frequency (corpus @ [d]) t = doc_frequency corpus t + (if t \<in> set d then 1 else 0)"
  by (simp add: doc_frequency_def)

lemma idf_score_spec:
  "idf_score ar (length corpus) (doc_frequency corpus t) = idf_spec ar corpus t"
  by (simp add: idf_score_def idf_spec_def)

text \<open>An insertion keeps the invariant, and leaves the index not built.\<close>

lemma bm25_inv_insert:
  assumes "bm25_inv ar s"
  shows "bm25_inv ar (update_stats_add
           (s\<lparr>bm25_documents := bm25_documents s @ [r],
              corpus_tokens := corpus_tokens s @ [toks]\<rparr>) toks)"
proof -
  let ?s' = "update_stats_add
           (s\<lparr>bm25_documents := bm25_documents s @ [r],
              corpus_tokens := corpus_tokens s @ [toks]\<rparr>) toks"
  from assms have
    i1: "length (corpus_tokens s) = length (bm25_documents s)" and
    i2: "doc_len s = map length (corpus_tokens s)" and
    i3: "distinct (map fst (doc_freqs s))" and
    i4: "\<And>t. map_of (doc_freqs s) t
             = (if doc_frequency (corpus_tokens s) t = 0 then None
                else Some (doc_frequency (corpus_tokens s) t))"
    by (simp_all add: bm25_inv_def)
  have c: "corpus_tokens ?s' = corpus_tokens s @ [toks]"
    and d: "bm25_documents ?s' = bm25_documents s @ [r]"
    and l: "doc_len ?s' = doc_len s @ [length toks]"
    and f: "doc_freqs ?s' = update_freqs toks {} (doc_freqs s)"
    and b: "\<not> index_built ?s'"
    by (simp_all add: update_stats_add_def)
  have "\<And>t. map_of (doc_freqs ?s') t
             = (if doc_frequency (corpus_tokens ?s') t = 0 then None
                else Some (doc_frequency (corpus_tokens ?s') t))"
    unfolding f c by (simp add: update_freqs_map_of i4 doc_frequency_append)
  moreover have "distinct (map fst (doc_freqs ?s'))"
    unfolding f using i3 by (rule update_freqs_distinct)
  moreover have "length (corpus_tokens ?s') = length (bm25_documents ?s')"
    unfolding c d using i1 by simp
  moreover have "doc_len ?s' = map length (corpus_tokens ?s')"
    unfolding c l using i2 by simp
  ultimately show ?thesis using b unfolding bm25_inv_def by blast
qed

lemma bm25_add_document_form:
  assumes "BM25Index_add_document h s d = Inr s'"
  shows "\<exists>r c. s' = update_stats_add
           (s\<lparr>bm25_documents := bm25_documents s @ [r],
              corpus_tokens := corpus_tokens s @ [tokenizer s c]\<rparr>) (tokenizer s c)"
proof (cases d)
  case (PDictRef r)
  show ?thesis
  proof (cases "h r ''content''")
    case None
    with assms PDictRef show ?thesis by (simp add: BM25Index_add_document_def)
  next
    case (Some v)
    with assms PDictRef show ?thesis
      by (cases v) (auto simp: BM25Index_add_document_def Let_def)
  qed
qed (use assms in \<open>simp_all add: BM25Index_add_document_def\<close>)

lemma bm25_inv_add_document:
  "bm25_inv ar s \<Longrightarrow> BM25Index_add_document h s d = Inr s' \<Longrightarrow> bm25_inv ar s'"
  using bm25_add_document_form [of h s d s'] bm25_inv_insert [of ar s] by auto

lemma update_stats_add_params:
  "bm25_k1 (update_stats_add s toks) = bm25_k1 s"
  "bm25_b (update_stats_add s toks) = bm25_b s"
  "tokenizer (update_stats_add s toks) = tokenizer s"
  by (simp_all add: update_stats_add_def)

lemma bm25_inv_add_documents_loop:
  "bm25_inv ar s \<Longrightarrow> add_documents_loop h s ds = (e, s') \<Longrightarrow>
     bm25_inv ar s' \<and> bm25_k1 s' = bm25_k1 s \<and> bm25_b s' = bm25_b s"
proof (induction ds arbitrary: s)
  case Nil
  then show ?case by simp
next
  case (Cons d ds)
  show ?case
  proof (cases "has_string_content h d")
    case True
    then obtain r c where d: "d = PDictRef r" "h r ''content'' = Some (PStr c)"
      using has_string_contentD by blast
    let ?s1 = "update_stats_add
                 (s\<lparr>bm25_documents := bm25_documents s @ [r],
                    corpus_tokens := corpus_tokens s @ [tokenizer s c]\<rparr>) (tokenizer s c)"
    from Cons.prems(2) have "add_documents_loop h ?s1 ds = (e, s')"
      unfolding d(1) add_documents_loop_good [of h r c, OF d(2)] .
    moreover from Cons.prems(1) have "bm25_inv ar ?s1" by (rule bm25_inv_insert)
    ultimately have "bm25_inv ar s' \<and> bm25_k1 s' = bm25_k1 ?s1 \<and> bm25_b s' = bm25_b ?s1"
      using Cons.IH by blast
    then show ?thesis by (simp add: update_stats_add_params)
  next
    case False
    from add_documents_loop_bad [OF this, of s ds] Cons.prems(2) have "s' = s" by auto
    with Cons.prems(1) show ?thesis by simp
  qed
qed

lemma bm25_inv_not_built: "bm25_inv ar s \<Longrightarrow> bm25_inv ar (s\<lparr>index_built := False\<rparr>)"
  by (simp add: bm25_inv_def)

lemma bm25_inv_add_documents:
  assumes "bm25_inv ar s" and "BM25Index_add_documents h s docs = (e, s')"
  shows "bm25_inv ar s' \<and> bm25_k1 s' = bm25_k1 s \<and> bm25_b s' = bm25_b s"
proof (cases docs)
  case (PList ds)
  show ?thesis
  proof (cases "ds = []")
    case True
    with assms PList show ?thesis by (simp add: BM25Index_add_documents_def)
  next
    case False
    obtain e1 s1 where l: "add_documents_loop h s ds = (e1, s1)" by fastforce
    from bm25_inv_add_documents_loop [OF assms(1) l]
    have s1: "bm25_inv ar s1" "bm25_k1 s1 = bm25_k1 s" "bm25_b s1 = bm25_b s" by simp_all
    from assms(2) PList False l have "s' = s1 \<or> s' = s1\<lparr>index_built := False\<rparr>"
      by (cases e1) (simp_all add: BM25Index_add_documents_def)
    with s1 bm25_inv_not_built [OF s1(1)] show ?thesis by auto
  qed
qed (use assms in \<open>simp_all add: BM25Index_add_documents_def\<close>)

text \<open>The loop of the inverse document frequencies, when nothing raises.\<close>

lemma idf_loop_None:
  "idf_loop ar N al m = (None, m') \<Longrightarrow> distinct (map fst al) \<Longrightarrow>
     (case map_of al t of
        None \<Rightarrow> m' t = m t
      | Some freq \<Rightarrow> (\<exists>v. idf_score ar N freq = Inr v \<and> m' t = Some v))"
proof (induction al arbitrary: m)
  case Nil
  then show ?case by simp
next
  case (Cons a al)
  obtain tm freq where a: "a = (tm, freq)" by (cases a)
  show ?case
  proof (cases "idf_score ar N freq")
    case (Inl e)
    with Cons.prems(1) a show ?thesis by simp
  next
    case (Inr v)
    with Cons.prems(1) a have loop: "idf_loop ar N al (m(tm \<mapsto> v)) = (None, m')" by simp
    from Cons.prems(2) a have dist: "distinct (map fst al)" and new: "tm \<notin> fst ` set al"
      by simp_all
    note ih = Cons.IH [OF loop dist]
    show ?thesis
    proof (cases "t = tm")
      case True
      from new have "map_of al tm = None" by (simp add: map_of_eq_None_iff)
      with ih True have "m' t = Some v" by simp
      with True a Inr show ?thesis by simp
    next
      case False
      with ih a show ?thesis by (cases "map_of al t") simp_all
    qed
  qed
qed

text \<open>Rebuilding the statistics keeps the invariant, whether it raises or not.\<close>

lemma build_index_inv:
  assumes "bm25_inv ar s" and "\<not> index_built s" and "bm25_documents s \<noteq> []"
    and "build_index ar s = (e, s')"
  shows "bm25_inv ar s' \<and> bm25_k1 s' = bm25_k1 s \<and> bm25_b s' = bm25_b s
         \<and> bm25_documents s' = bm25_documents s \<and> (e = None \<longrightarrow> index_built s')"
proof -
  from assms(1) have
    i1: "length (corpus_tokens s) = length (bm25_documents s)" and
    i2: "doc_len s = map length (corpus_tokens s)" and
    i3: "distinct (map fst (doc_freqs s))" and
    i4: "\<And>t. map_of (doc_freqs s) t
             = (if doc_frequency (corpus_tokens s) t = 0 then None
                else Some (doc_frequency (corpus_tokens s) t))"
    by (simp_all add: bm25_inv_def)
  let ?q = "py_div ar (py_int ar (int (sum_list (doc_len s))))
              (py_int ar (int (length (bm25_documents s))))"
  have q: "?q = avglen_spec ar (corpus_tokens s)"
    by (simp add: avglen_spec_def i1 i2)
  show ?thesis
  proof (cases ?q)
    case (Inl err)
    with assms(3,4) have "s' = s" "e = Some err" by (simp_all add: build_index_def)
    with assms(1) show ?thesis by simp
  next
    case (Inr avg)
    obtain e1 m where loop:
      "idf_loop ar (length (bm25_documents s)) (doc_freqs s) Map.empty = (e1, m)"
      by fastforce
    show ?thesis
    proof (cases e1)
      case (Some err)
      with assms(3,4) Inr loop have "s' = s\<lparr>avg_doc_len := avg, idf := m\<rparr>" "e = Some err"
        by (simp_all add: build_index_def calculate_idf_def)
      with assms(1,2) show ?thesis by (simp add: bm25_inv_def)
    next
      case None
      with assms(3,4) Inr loop have
        s': "s' = s\<lparr>avg_doc_len := avg, idf := m, index_built := True\<rparr>" and e: "e = None"
        by (simp_all add: build_index_def calculate_idf_def)
      have idf: "if doc_frequency (corpus_tokens s) t = 0 then m t = None
                 else \<exists>v. idf_spec ar (corpus_tokens s) t = Inr v \<and> m t = Some v" for t
        using idf_loop_None [OF loop [unfolded None] i3, of t] i4 [of t]
          idf_score_spec [of ar "corpus_tokens s" t]
        by (simp add: i1 split: if_splits)
      from q Inr have "avglen_spec ar (corpus_tokens s) = Inr avg" by simp
      with idf i1 i2 i3 i4 show ?thesis unfolding s' e bm25_inv_def by simp
    qed
  qed
qed

text \<open>The index that a search leaves.\<close>

lemma BM25Index_search_state:
  "snd (BM25Index_search ar s query k f) =
     (case query of
        PStr query_text \<Rightarrow>
          if bm25_documents s \<noteq> [] \<and> 0 < k \<and> \<not> index_built s then snd (build_index ar s)
          else s
      | _ \<Rightarrow> s)"
proof (cases query)
  case (PStr query_text)
  obtain e s' where b: "build_index ar s = (e, s')" by fastforce
  show ?thesis
  proof (cases "bm25_documents s \<noteq> [] \<and> 0 < k \<and> \<not> index_built s")
    case True
    with PStr b show ?thesis
      by (cases e)
        (simp_all add: BM25Index_search_def Let_def split: sum.split)
  next
    case False
    with PStr show ?thesis
      by (auto simp: BM25Index_search_def Let_def split: sum.split)
  qed
qed (simp_all add: BM25Index_search_def)

lemma bm25_inv_search:
  assumes "bm25_inv ar s" and "BM25Index_search ar s query k f = (r, s')"
  shows "bm25_inv ar s' \<and> bm25_k1 s' = bm25_k1 s \<and> bm25_b s' = bm25_b s"
proof -
  from assms(2) have s': "s' = snd (BM25Index_search ar s query k f)" by simp
  show ?thesis
  proof (cases "\<exists>q. query = PStr q \<and> bm25_documents s \<noteq> [] \<and> 0 < k \<and> \<not> index_built s")
    case True
    then obtain q where q: "query = PStr q" "bm25_documents s \<noteq> []" "0 < k" "\<not> index_built s"
      by blast
    obtain e s1 where b: "build_index ar s = (e, s1)" by fastforce
    with s' q have "s' = s1" by (simp add: BM25Index_search_state)
    with build_index_inv [OF assms(1) q(4) q(2) b] show ?thesis by simp
  next
    case False
    with s' have "s' = s" by (cases query) (auto simp: BM25Index_search_state)
    with assms(1) show ?thesis by simp
  qed
qed

lemma bm25_reach_inv:
  "bm25_reach ar s0 s \<Longrightarrow> bm25_inv ar s0 \<Longrightarrow>
     bm25_inv ar s \<and> bm25_k1 s = bm25_k1 s0 \<and> bm25_b s = bm25_b s0"
proof (induction rule: bm25_reach.induct)
  case (bm25_refl s)
  then show ?case by simp
next
  case (bm25_add_document s s1 h d s2)
  from bm25_add_document.IH [OF bm25_add_document.prems]
  have s1: "bm25_inv ar s1" "bm25_k1 s1 = bm25_k1 s" "bm25_b s1 = bm25_b s" by simp_all
  from bm25_add_document_form [OF bm25_add_document.hyps(2)]
  have "bm25_k1 s2 = bm25_k1 s1 \<and> bm25_b s2 = bm25_b s1"
    by (auto simp: update_stats_add_params)
  with s1 bm25_inv_add_document [OF s1(1) bm25_add_document.hyps(2)] show ?case by simp
next
  case (bm25_add_documents s s1 h ds e s2)
  from bm25_add_documents.IH [OF bm25_add_documents.prems]
  have s1: "bm25_inv ar s1" "bm25_k1 s1 = bm25_k1 s" "bm25_b s1 = bm25_b s" by simp_all
  from bm25_inv_add_documents [OF s1(1) bm25_add_documents.hyps(2)] s1 show ?case by simp
next
  case (bm25_search s s1 q k f r s2)
  from bm25_search.IH [OF bm25_search.prems]
  have s1: "bm25_inv ar s1" "bm25_k1 s1 = bm25_k1 s" "bm25_b s1 = bm25_b s" by simp_all
  from bm25_inv_search [OF s1(1) bm25_search.hyps(2)] s1 show ?case by simp
qed

lemma bm25_inv_init: "bm25_inv ar (BM25Index_init ar k1 b tok)"
  by (simp add: bm25_inv_def BM25Index_init_def doc_frequency_def)

text \<open>
  A search that returns a result from a non-empty index leaves the index built, so the
  scores it has computed are those of a built index.
\<close>

lemma build_index_built: "build_index ar s = (None, s') \<Longrightarrow> index_built s'"
proof (cases "bm25_documents s = []")
  case True
  then show "build_index ar s = (None, s') \<Longrightarrow> index_built s'"
    by (auto simp: build_index_def)
next
  case False
  assume b: "build_index ar s = (None, s')"
  show "index_built s'"
  proof (cases "py_div ar (py_int ar (int (sum_list (doc_len s))))
                  (py_int ar (int (length (bm25_documents s))))")
    case (Inl e)
    with b False show ?thesis by (simp add: build_index_def)
  next
    case (Inr avg)
    obtain e1 s1 where c: "calculate_idf ar (s\<lparr>avg_doc_len := avg\<rparr>) = (e1, s1)" by fastforce
    with b False Inr show ?thesis by (cases e1) (auto simp: build_index_def)
  qed
qed

lemma BM25Index_search_built:
  assumes "BM25Index_search ar s query k f = (Inr res, s')" and "bm25_documents s \<noteq> []"
  shows "index_built s'"
proof (cases query)
  case (PStr q)
  from assms PStr have k: "0 < k" by (auto simp: BM25Index_search_def split: if_splits)
  show ?thesis
  proof (cases "index_built s")
    case True
    with assms(1) PStr have "s' = snd (BM25Index_search ar s query k f)" by simp
    with True PStr show ?thesis by (simp add: BM25Index_search_state)
  next
    case False
    obtain e s1 where b: "build_index ar s = (e, s1)" by fastforce
    show ?thesis
    proof (cases e)
      case None
      from assms(1) have "s' = snd (BM25Index_search ar s query k f)" by simp
      with PStr assms(2) k False b have "s' = s1" by (simp add: BM25Index_search_state)
      with b None show ?thesis using build_index_built by blast
    next
      case (Some err)
      with assms PStr k False b show ?thesis by (simp add: BM25Index_search_def)
    qed
  qed
qed (use assms in \<open>simp_all add: BM25Index_search_def\<close>)

text \<open>The loop over the query tokens computes the sum of the formula.\<close>

lemma score_loop_spec:
  assumes "\<And>t. if doc_frequency corpus t = 0 then idf s t = None
               else \<exists>v. idf_spec ar corpus t = Inr v \<and> idf s t = Some v"
  shows "score_loop ar s d (length d) q acc
           = bm25_sum_spec ar (bm25_k1 s) (bm25_b s) corpus (avg_doc_len s) d q acc"
proof (induction q arbitrary: acc)
  case Nil
  then show ?case by simp
next
  case (Cons t q)
  show ?case
  proof (cases "doc_frequency corpus t = 0")
    case True
    with assms [of t] have "idf s t = None" by simp
    with True Cons.IH show ?thesis by simp
  next
    case False
    with assms [of t] obtain v where v: "idf_spec ar corpus t = Inr v" "idf s t = Some v"
      by auto
    let ?x = "op2 (py_add ar) (Inr acc)
                (term_score_spec ar (bm25_k1 s) (bm25_b s) v (count_list d t) (length d)
                   (avg_doc_len s))"
    show ?thesis
    proof (cases ?x)
      case (Inl e)
      with False v show ?thesis by (simp add: term_score_spec_def Let_def)
    next
      case (Inr acc')
      with False v Cons.IH [of acc'] show ?thesis by (simp add: term_score_spec_def Let_def)
    qed
  qed
qed

text \<open>
  C1. Take an index built up from a new one by insertions and searches, in a state where
  its statistics are built, which is the state in which \<^verbatim>\<open>search\<close> computes scores, and a
  document \<open>i\<close> of it. The raw score of the document for a query is the sum, over the query
  tokens that occur in the corpus, of
  \<open>idf(t) \<cdot> tf(t,d) \<cdot> (k1 + 1) / (tf(t,d) + k1 \<cdot> (1 - b + b \<cdot> |d| / avglen) + \<epsilon>)\<close> with
  \<open>idf(t) = ln ((N - df(t) + 0.5) / (df(t) + 0.5) + 1)\<close>, where \<open>N\<close> is the number of
  documents, \<open>df(t)\<close> the number of documents that contain \<open>t\<close>, \<open>tf(t,d)\<close> the number of
  occurrences of \<open>t\<close> in the document, \<open>|d|\<close> its number of tokens and \<open>avglen\<close> the average
  of these numbers; every operation is the float operation of the code, applied in the
  order of the code. The table of the inverse document frequencies holds exactly the
  terms of the corpus, so a query token that is not in the corpus adds nothing to the sum.
\<close>

theorem bm25_score_formula:
  assumes "bm25_reach ar (BM25Index_init ar k1 b tok) s"
    and "index_built s"
    and "i < length (bm25_documents s)"
  shows "compute_bm25_score ar s query_tokens (int i)
           = bm25_score_spec ar k1 b (corpus_tokens s) query_tokens i
         \<and> length (corpus_tokens s) = length (bm25_documents s)
         \<and> avglen_spec ar (corpus_tokens s) = Inr (avg_doc_len s)
         \<and> (\<forall>t. if doc_frequency (corpus_tokens s) t = 0 then idf s t = None
                 else \<exists>v. idf_spec ar (corpus_tokens s) t = Inr v \<and> idf s t = Some v)"
proof -
  from bm25_reach_inv [OF assms(1) bm25_inv_init]
  have inv: "bm25_inv ar s" and k1: "bm25_k1 s = k1" and b: "bm25_b s = b"
    by (simp_all add: BM25Index_init_def)
  from assms(3) have ne: "bm25_documents s \<noteq> []" by auto
  from inv have
    i1: "length (corpus_tokens s) = length (bm25_documents s)" and
    i2: "doc_len s = map length (corpus_tokens s)"
    by (simp_all add: bm25_inv_def)
  from inv assms(2) ne have
    avg: "avglen_spec ar (corpus_tokens s) = Inr (avg_doc_len s)" and
    idf: "\<And>t. if doc_frequency (corpus_tokens s) t = 0 then idf s t = None
              else \<exists>v. idf_spec ar (corpus_tokens s) t = Inr v \<and> idf s t = Some v"
    by (simp_all add: bm25_inv_def)
  from assms(3) i1 i2 have
    "compute_bm25_score ar s query_tokens (int i)
       = score_loop ar s (corpus_tokens s ! i) (length (corpus_tokens s ! i)) query_tokens
           (float_zero ar)"
    by (simp add: compute_bm25_score_def py_index_def)
  also have "\<dots> = bm25_sum_spec ar k1 b (corpus_tokens s) (avg_doc_len s)
                    (corpus_tokens s ! i) query_tokens (float_zero ar)"
    using score_loop_spec [of "corpus_tokens s" s ar, OF idf] k1 b by simp
  also have "\<dots> = bm25_score_spec ar k1 b (corpus_tokens s) query_tokens i"
    by (simp add: bm25_score_spec_def avg)
  finally show ?thesis using i1 avg idf by blast
qed
theorem bm25_score_formula_witness:
  "BM25Index_add_documents (\<lambda>r. [''content'' \<mapsto> PStr (if r = 0 then ''a b'' else ''a'')])
       (BM25Index_init exact_ops (3 / 2) (3 / 4) None) (PList [PDictRef 0, PDictRef 1])
     = (None,
        \<lparr>bm25_documents = [0, 1], corpus_tokens = [[''a'', ''b''], [''a'']], doc_len = [2, 1],
         doc_freqs = [(''a'', 2), (''b'', 1)], avg_doc_len = 0, idf = Map.empty,
         index_built = False, bm25_k1 = 3 / 2, bm25_b = 3 / 4,
         tokenizer = default_tokenizer\<rparr>)
   \<and> snd (BM25Index_search exact_ops
        \<lparr>bm25_documents = [0, 1], corpus_tokens = [[''a'', ''b''], [''a'']], doc_len = [2, 1],
         doc_freqs = [(''a'', 2), (''b'', 1)], avg_doc_len = 0, idf = Map.empty,
         index_built = False, bm25_k1 = 3 / 2, bm25_b = 3 / 4,
         tokenizer = default_tokenizer\<rparr> (PStr ''a'') 1 (1 / 10))
     = \<lparr>bm25_documents = [0, 1], corpus_tokens = [[''a'', ''b''], [''a'']], doc_len = [2, 1],
        doc_freqs = [(''a'', 2), (''b'', 1)], avg_doc_len = 3 / 2,
        idf = [''a'' \<mapsto> ln (6 / 5), ''b'' \<mapsto> ln 2],
        index_built = True, bm25_k1 = 3 / 2, bm25_b = 3 / 4, tokenizer = default_tokenizer\<rparr>
   \<and> compute_bm25_score exact_ops
        \<lparr>bm25_documents = [0, 1], corpus_tokens = [[''a'', ''b''], [''a'']], doc_len = [2, 1],
         doc_freqs = [(''a'', 2), (''b'', 1)], avg_doc_len = 3 / 2,
         idf = [''a'' \<mapsto> ln (6 / 5), ''b'' \<mapsto> ln 2],
         index_built = True, bm25_k1 = 3 / 2, bm25_b = 3 / 4, tokenizer = default_tokenizer\<rparr>
        [''a'', ''z''] 0
     = bm25_score_spec exact_ops (3 / 2) (3 / 4) [[''a'', ''b''], [''a'']] [''a'', ''z''] 0"
proof -
  let ?h = "(\<lambda>r. [''content'' \<mapsto> PStr (if r = 0 then ''a b'' else ''a'')]) :: store"
  let ?s1 = "\<lparr>bm25_documents = [0, 1], corpus_tokens = [[''a'', ''b''], [''a'']],
         doc_len = [2, 1], doc_freqs = [(''a'', 2), (''b'', 1)], avg_doc_len = 0 :: real,
         idf = Map.empty, index_built = False, bm25_k1 = 3 / 2, bm25_b = 3 / 4,
         tokenizer = default_tokenizer\<rparr>"
  let ?s2 = "\<lparr>bm25_documents = [0, 1], corpus_tokens = [[''a'', ''b''], [''a'']],
         doc_len = [2, 1], doc_freqs = [(''a'', 2), (''b'', 1)], avg_doc_len = 3 / 2 :: real,
         idf = [''a'' \<mapsto> ln (6 / 5), ''b'' \<mapsto> ln 2],
         index_built = True, bm25_k1 = 3 / 2, bm25_b = 3 / 4, tokenizer = default_tokenizer\<rparr>"
  have t1: "default_tokenizer ''a b'' = [''a'', ''b'']"
    by (simp add: default_tokenizer_def is_word_char_def lower_char_def)
  have t2: "default_tokenizer ''a'' = [''a'']"
    by (simp add: default_tokenizer_def is_word_char_def lower_char_def)
  have a: "BM25Index_add_documents ?h (BM25Index_init exact_ops (3 / 2) (3 / 4) None)
             (PList [PDictRef 0, PDictRef 1]) = (None, ?s1)"
    by (simp add: BM25Index_add_documents_def BM25Index_init_def update_stats_add_def Let_def
        t1 t2 exact_ops_def)
  have b: "build_index exact_ops ?s1 = (None, ?s2)"
    by (simp add: build_index_def calculate_idf_def idf_score_def op1_def op2_def
        exact_ops_def)
  have c: "snd (BM25Index_search exact_ops ?s1 (PStr ''a'') 1 (1 / 10)) = ?s2"
    unfolding BM25Index_search_state b by simp
  then have "BM25Index_search exact_ops ?s1 (PStr ''a'') 1 (1 / 10)
               = (fst (BM25Index_search exact_ops ?s1 (PStr ''a'') 1 (1 / 10)), ?s2)"
    by (metis surjective_pairing)
  from bm25_search [OF bm25_add_documents [OF bm25_refl a] this]
  have r: "bm25_reach exact_ops (BM25Index_init exact_ops (3 / 2) (3 / 4) None) ?s2" .
  from bm25_score_formula [OF r, of 0 "[''a'', ''z'']"]
  have "compute_bm25_score exact_ops ?s2 [''a'', ''z''] 0
          = bm25_score_spec exact_ops (3 / 2) (3 / 4) [[''a'', ''b''], [''a'']] [''a'', ''z''] 0"
    by simp
  with a c show ?thesis by simp
qed

end
